theory Spec2Isabelle
  imports Main "HOL-Library.Sublist"
begin

section \<open>Data model of \<open>regex_labeler.py\<close>\<close>

text \<open>
  Python strings are modelled as \<open>string\<close>; every \<open>char\<close> stands for one Unicode code
  point below 256, so \<open>length\<close> counts code points as \<open>len\<close> does. Python integers are
  \<open>int\<close>. An exception is a value of \<open>error\<close> on the left of a sum: the exceptions the
  code can raise by itself, \<open>ReError\<close> for \<open>re.error\<close> on an expression that does not
  compile, and \<open>Unsupported\<close> for an expression outside the model of \<open>re\<close> given below.
\<close>

datatype error = IndexError | ValueError | TypeError | UnboundLocalError | ReError | Unsupported

text \<open>\<open>Annotation = namedtuple('Annotation', ['start', 'end', 'label'])\<close>\<close>

datatype Annotation = Annotation (start: int) (end': int) (label: string)

text \<open>
  \<open>LabelPattern = namedtuple('LabelPattern', ['pattern', 'label', 'matching_mode',
  'matching_group'])\<close>; all four fields are strings.
\<close>

record LabelPattern =
  pattern :: string
  lp_label :: string
  matching_mode :: string
  matching_group :: string

definition EXACT_MATCH :: string where "EXACT_MATCH = ''e''"
definition IGNORE_CASE :: string where "IGNORE_CASE = ''i''"
definition REGEX :: string where "REGEX = ''r''"
definition MATCHING_MODES :: "string list" where
  "MATCHING_MODES = [EXACT_MATCH, IGNORE_CASE, REGEX]"

text \<open>
  The module-level limits. Both are \<open>None\<close> in the source and nothing assigns them
  (the one assignment to a limit, in \<open>generate\<close>, binds a local name).
\<close>

definition MAX_ANNOTATION_TOKENS :: "int option" where "MAX_ANNOTATION_TOKENS = None"
definition MAX_LABEL_LENGTH :: "int option" where "MAX_LABEL_LENGTH = None"

text \<open>\<open>LIMIT and n > LIMIT\<close> for an optional limit: \<open>None\<close> and \<open>0\<close> are false.\<close>

fun over_limit :: "int option \<Rightarrow> nat \<Rightarrow> bool" where
  "over_limit None n = False"
| "over_limit (Some k) n = (k \<noteq> 0 \<and> int n > k)"

text \<open>
  One element of \<open>example['annotations']\<close>:
  \<open>{'text_extraction': {'text_segment': {'start_offset': s, 'end_offset': e}},
  'display_name': l}\<close>, and the example record itself.
\<close>

record json_annotation =
  start_offset :: int
  end_offset :: int
  display_name :: string

record example =
  content :: string
  annotations :: "json_annotation list"

definition AnnotationToJson :: "Annotation \<Rightarrow> json_annotation" where
  "AnnotationToJson annotation =
     \<lparr>start_offset = start annotation, end_offset = end' annotation,
      display_name = label annotation\<rparr>"

text \<open>The list comprehension at the head of \<open>_AnnotateExample\<close>, for one element.\<close>

definition AnnotationOfJson :: "json_annotation \<Rightarrow> Annotation" where
  "AnnotationOfJson a = Annotation (start_offset a) (end_offset a) (display_name a)"

section \<open>Overlap test and insertion\<close>

text \<open>
  \<open>return (a1.start >= a2.start and a1.start < a2.end or
            a1.end > a2.start and a1.end <= a2.end)\<close>
\<close>

definition HasOverlap :: "Annotation \<Rightarrow> Annotation \<Rightarrow> bool" where
  "HasOverlap a1 a2 =
     (start a1 \<ge> start a2 \<and> start a1 < end' a2 \<or>
      end' a1 > start a2 \<and> end' a1 \<le> end' a2)"

text \<open>
  The closure \<open>_AddAnnotation\<close>: the loop over the annotations present returns \<open>False\<close>
  at the first one the candidate overlaps; otherwise the candidate is appended. The
  list \<open>annotations\<close> it mutates is passed in and returned.
\<close>

fun overlaps_any :: "Annotation \<Rightarrow> Annotation list \<Rightarrow> bool" where
  "overlaps_any annotation [] = False"
| "overlaps_any annotation (a # as) =
     (if HasOverlap annotation a then True else overlaps_any annotation as)"

definition AddAnnotation :: "Annotation list \<Rightarrow> Annotation \<Rightarrow> Annotation list \<times> bool" where
  "AddAnnotation anns annotation =
     (if overlaps_any annotation anns then (anns, False)
      else (anns @ [annotation], True))"

section \<open>Built-in string operations\<close>

text \<open>
  The character classes are those of Python 3 for the code points below 256:
  \<open>str.isspace\<close> (also \<open>\s\<close> of \<open>re\<close>), the word characters
  \<open>\w\<close> of \<open>re\<close> on \<open>str\<close> patterns (alphanumeric or underscore), and \<open>str.lower\<close>.
\<close>

definition py_isspace :: "char \<Rightarrow> bool" where
  "py_isspace c =
     (let n = (of_char c :: nat)
      in (9 \<le> n \<and> n \<le> 13) \<or> (28 \<le> n \<and> n \<le> 32) \<or> n = 133 \<or> n = 160)"

definition is_word :: "char \<Rightarrow> bool" where
  "is_word c =
     (let n = (of_char c :: nat)
      in (48 \<le> n \<and> n \<le> 57) \<or> (65 \<le> n \<and> n \<le> 90) \<or> n = 95 \<or> (97 \<le> n \<and> n \<le> 122)
         \<or> n = 170 \<or> n = 178 \<or> n = 179 \<or> n = 181 \<or> n = 185 \<or> n = 186
         \<or> (188 \<le> n \<and> n \<le> 190) \<or> (192 \<le> n \<and> n \<le> 214)
         \<or> (216 \<le> n \<and> n \<le> 246) \<or> (248 \<le> n \<and> n \<le> 255))"

definition py_lower_char :: "char \<Rightarrow> char" where
  "py_lower_char c =
     (let n = (of_char c :: nat)
      in if (65 \<le> n \<and> n \<le> 90) \<or> (192 \<le> n \<and> n \<le> 222 \<and> n \<noteq> 215)
         then char_of (n + 32) else c)"

definition py_lower :: "string \<Rightarrow> string" where
  "py_lower s = map py_lower_char s"

definition py_strip :: "string \<Rightarrow> string" where
  "py_strip s = rev (dropWhile py_isspace (rev (dropWhile py_isspace s)))"

text \<open>
  \<open>int(s)\<close> on a string, base 10. The blanks skipped at both ends are fewer than
  those of \<open>str.strip\<close>: the separators U+001C to U+001F are not skipped and make
  \<open>int\<close> raise. One sign is allowed, and the rest must be decimal digits, with single
  underscores allowed between digits. A string of more than \<open>sys.int_info\<close>'s default
  limit of 4300 digits (leading zeros counted, sign and underscores not) is refused.
  Every failure is a \<open>ValueError\<close>.
\<close>

definition int_isspace :: "char \<Rightarrow> bool" where
  "int_isspace c =
     (let n = (of_char c :: nat)
      in (9 \<le> n \<and> n \<le> 13) \<or> n = 32 \<or> n = 133 \<or> n = 160)"

definition INT_MAX_STR_DIGITS :: nat where
  "INT_MAX_STR_DIGITS = 4300"

definition is_digit :: "char \<Rightarrow> bool" where
  "is_digit c = (let n = (of_char c :: nat) in 48 \<le> n \<and> n \<le> 57)"

fun digits_ok :: "bool \<Rightarrow> string \<Rightarrow> bool" where
  "digits_ok prev_digit [] = prev_digit"
| "digits_ok prev_digit (c # cs) =
     (if is_digit c then digits_ok True cs
      else if c = CHR ''_'' \<and> prev_digit then digits_ok False cs
      else False)"

fun digits_value :: "nat \<Rightarrow> string \<Rightarrow> nat" where
  "digits_value acc [] = acc"
| "digits_value acc (c # cs) =
     (if is_digit c then digits_value (10 * acc + (of_char c - 48)) cs
      else digits_value acc cs)"

definition py_int :: "string \<Rightarrow> error + int" where
  "py_int s =
     (let t = rev (dropWhile int_isspace (rev (dropWhile int_isspace s)));
          neg = (take 1 t = ''-'');
          body = (if take 1 t = ''-'' \<or> take 1 t = ''+'' then drop 1 t else t)
      in if digits_ok False body \<and> length (filter is_digit body) \<le> INT_MAX_STR_DIGITS
         then Inr (if neg then - int (digits_value 0 body) else int (digits_value 0 body))
         else Inl ValueError)"

text \<open>
  \<open>len(list(filter(None, re.split(r'\s+', s))))\<close>: \<open>re.split\<close> cuts \<open>s\<close> at every
  maximal run of blanks (keeping empty pieces at the ends), \<open>filter(None, ...)\<close> drops
  the empty pieces.
\<close>

function re_split_ws :: "string \<Rightarrow> string \<Rightarrow> string list" where
  "re_split_ws cur [] = [cur]"
| "re_split_ws cur (c # cs) =
     (if py_isspace c then cur # re_split_ws [] (dropWhile py_isspace cs)
      else re_split_ws (cur @ [c]) cs)"
  by pat_completeness auto
termination
  by (relation "measure (\<lambda>(cur, s). length s)")
     (auto simp: length_dropWhile_le less_Suc_eq_le)

definition count_tokens :: "string \<Rightarrow> nat" where
  "count_tokens s = length (filter (\<lambda>t. t \<noteq> []) (re_split_ws [] s))"

section \<open>Match objects of \<open>re\<close>\<close>

text \<open>
  A match object, as far as \<open>_AnnotateExample\<close> reads it: the span of group 0 and, for
  each capture group \<open>1..n\<close> of the pattern, its span or \<open>None\<close> when the group took no
  part in the match. \<open>start(g)\<close>, \<open>end(g)\<close> and \<open>group(g)\<close> raise \<open>IndexError\<close> for a
  group the pattern does not have; for a group that took no part they give \<open>-1\<close>,
  \<open>-1\<close> and \<open>None\<close>. \<open>groups()\<close> has one entry per capture group.
\<close>

record rmatch =
  span0 :: "nat \<times> nat"
  subgroups :: "(nat \<times> nat) option list"

definition match_span :: "rmatch \<Rightarrow> int \<Rightarrow> error + (nat \<times> nat) option" where
  "match_span m g =
     (if g < 0 \<or> int (length (subgroups m)) < g then Inl IndexError
      else if g = 0 then Inr (Some (span0 m))
      else Inr (subgroups m ! (nat g - 1)))"

definition match_start :: "rmatch \<Rightarrow> int \<Rightarrow> error + int" where
  "match_start m g =
     (case match_span m g of
        Inl e \<Rightarrow> Inl e
      | Inr None \<Rightarrow> Inr (- 1)
      | Inr (Some (s, e)) \<Rightarrow> Inr (int s))"

definition match_end :: "rmatch \<Rightarrow> int \<Rightarrow> error + int" where
  "match_end m g =
     (case match_span m g of
        Inl e \<Rightarrow> Inl e
      | Inr None \<Rightarrow> Inr (- 1)
      | Inr (Some (s, e)) \<Rightarrow> Inr (int e))"

definition match_group :: "string \<Rightarrow> rmatch \<Rightarrow> int \<Rightarrow> error + string option" where
  "match_group txt m g =
     (case match_span m g of
        Inl e \<Rightarrow> Inl e
      | Inr None \<Rightarrow> Inr None
      | Inr (Some (s, e)) \<Rightarrow> Inr (Some (take (e - s) (drop s txt))))"

text \<open>\<open>not x\<close> for the result of \<open>match.group\<close>: \<open>None\<close> and the empty string are false.\<close>

fun falsy :: "string option \<Rightarrow> bool" where
  "falsy None = True"
| "falsy (Some s) = (s = [])"

text \<open>
  \<open>re.finditer(regex, text, flags)\<close> is a parameter of the model: it maps the regular
  expression, whether \<open>re.IGNORECASE\<close> is set, and the text to the matches in the order
  the iterator yields them, or to the error raised when the expression does not compile.
\<close>

type_synonym finditer = "string \<Rightarrow> bool \<Rightarrow> string \<Rightarrow> error + rmatch list"

section \<open>Log records\<close>

text \<open>
  What the code hands to \<open>logging\<close>, one constructor per call site. \<open>logger.debug\<close> is
  left out: the module sets the logger's level to \<open>INFO\<close>.
\<close>

datatype log_event =
    Skipped_empty_match int
  | Skipped_empty_match_group int
  | Matched "string option" int bool
  | Probably_invalid string
  | Skipped_malformed nat "string list"
  | Skipped_duplicate nat "string list"
  | Skipped_invalid_label nat "string list"
  | Parsed nat

section \<open>\<open>_AnnotateExample\<close>\<close>

text \<open>
  The body of \<open>for match in matcher\<close>, on the state (\<open>annotations\<close>, log). The
  comparison in the first \<open>if\<close> calls \<open>match.start(label_group)\<close> and so raises for a
  missing group before the second \<open>if\<close> is reached. The \<open>logger.info\<close> call formats
  \<open>match.group(1)\<close> whatever \<open>label_group\<close> is, and \<open>re.split\<close> raises \<open>TypeError\<close> on
  \<open>None\<close>.
\<close>

definition AnnotateMatch ::
  "int option \<Rightarrow> string \<Rightarrow> string \<Rightarrow> int \<Rightarrow> Annotation list \<times> log_event list \<Rightarrow> rmatch
   \<Rightarrow> error + (Annotation list \<times> log_event list)" where
  "AnnotateMatch max_tokens example_text lbl label_group st m =
     (case match_start m label_group of
        Inl err \<Rightarrow> Inl err
      | Inr s \<Rightarrow>
     (case match_end m label_group of
        Inl err \<Rightarrow> Inl err
      | Inr e \<Rightarrow>
        if s \<ge> e then Inr (fst st, snd st @ [Skipped_empty_match (int (fst (span0 m)))])
        else
        if int (length (subgroups m)) < label_group
        then Inr (fst st, snd st @ [Skipped_empty_match_group (int (fst (span0 m)))])
        else
     (case match_group example_text m label_group of
        Inl err \<Rightarrow> Inl err
      | Inr g \<Rightarrow>
        if falsy g
        then Inr (fst st, snd st @ [Skipped_empty_match_group (int (fst (span0 m)))])
        else
          let annotation = Annotation s e lbl;
              added = AddAnnotation (fst st) annotation
          in
     (case match_group example_text m 1 of
        Inl err \<Rightarrow> Inl err
      | Inr g1 \<Rightarrow>
          let log' = snd st @ [Matched g1 s (\<not> snd added)]
          in if snd added then
               (case g1 of
                  None \<Rightarrow> Inl TypeError
                | Some t \<Rightarrow>
                    if count_tokens t = 0 \<or> over_limit max_tokens (count_tokens t)
                    then Inr (fst added, log' @ [Probably_invalid t])
                    else Inr (fst added, log'))
             else Inr (fst added, log')))))"

text \<open>\<open>for match in matcher\<close>: the first exception ends the loop and the call.\<close>

fun AnnotateMatches ::
  "int option \<Rightarrow> string \<Rightarrow> string \<Rightarrow> int \<Rightarrow> Annotation list \<times> log_event list \<Rightarrow> rmatch list
   \<Rightarrow> error + (Annotation list \<times> log_event list)" where
  "AnnotateMatches max_tokens example_text lbl label_group st [] = Inr st"
| "AnnotateMatches max_tokens example_text lbl label_group st (m # ms) =
     (case AnnotateMatch max_tokens example_text lbl label_group st m of
        Inl err \<Rightarrow> Inl err
      | Inr st' \<Rightarrow> AnnotateMatches max_tokens example_text lbl label_group st' ms)"

text \<open>The two characters \<open>\b\<close> that \<open>u'\\b%s\\b'\<close> puts around the pattern.\<close>

definition word_boundary :: string where
  "word_boundary = [CHR 0x5C, CHR ''b'']"

text \<open>
  The \<open>if\<close>/\<open>elif\<close> chain on \<open>matching_mode\<close>. It has no \<open>else\<close>: for any other mode
  the variable \<open>matcher\<close> is not assigned in this iteration (\<open>None\<close> here).
\<close>

definition select_matcher ::
  "finditer \<Rightarrow> string \<Rightarrow> LabelPattern \<Rightarrow> (error + rmatch list) option" where
  "select_matcher fi example_text label_pattern =
     (if matching_mode label_pattern = EXACT_MATCH
      then Some (fi (word_boundary @ pattern label_pattern @ word_boundary) False example_text)
      else if matching_mode label_pattern = IGNORE_CASE
      then Some (fi (pattern label_pattern) True example_text)
      else if matching_mode label_pattern = REGEX
      then Some (fi (pattern label_pattern) False example_text)
      else None)"

text \<open>
  \<open>if len(label_pattern.matching_group): label_group = int(...) else: label_group = 0\<close>
\<close>

definition label_group_of :: "LabelPattern \<Rightarrow> error + int" where
  "label_group_of label_pattern =
     (if length (matching_group label_pattern) \<noteq> 0
      then py_int (matching_group label_pattern) else Inr 0)"

text \<open>
  One iteration of \<open>for label_pattern in label_patterns\<close>. The state carries, besides
  the annotations and the log, whether \<open>matcher\<close> has been assigned by an earlier
  iteration. When this iteration does not assign it, the \<open>for\<close> loop either raises
  \<open>UnboundLocalError\<close> or runs over the iterator of the earlier rule, which that rule's
  loop has exhausted.
\<close>

definition AnnotatePattern ::
  "finditer \<Rightarrow> int option \<Rightarrow> string \<Rightarrow> Annotation list \<times> log_event list \<times> bool \<Rightarrow> LabelPattern
   \<Rightarrow> error + (Annotation list \<times> log_event list \<times> bool)" where
  "AnnotatePattern fi max_tokens example_text st label_pattern =
     (case select_matcher fi example_text label_pattern of
        Some (Inl err) \<Rightarrow> Inl err
      | Some (Inr ms) \<Rightarrow>
          (case label_group_of label_pattern of
             Inl err \<Rightarrow> Inl err
           | Inr label_group \<Rightarrow>
               (case AnnotateMatches max_tokens example_text (lp_label label_pattern)
                       label_group (fst st, fst (snd st)) ms of
                  Inl err \<Rightarrow> Inl err
                | Inr st' \<Rightarrow> Inr (fst st', snd st', True)))
      | None \<Rightarrow>
          (case label_group_of label_pattern of
             Inl err \<Rightarrow> Inl err
           | Inr label_group \<Rightarrow>
               if snd (snd st) then Inr st else Inl UnboundLocalError))"

fun AnnotatePatterns ::
  "finditer \<Rightarrow> int option \<Rightarrow> string \<Rightarrow> Annotation list \<times> log_event list \<times> bool
   \<Rightarrow> LabelPattern list \<Rightarrow> error + (Annotation list \<times> log_event list \<times> bool)" where
  "AnnotatePatterns fi max_tokens example_text st [] = Inr st"
| "AnnotatePatterns fi max_tokens example_text st (label_pattern # rest) =
     (case AnnotatePattern fi max_tokens example_text st label_pattern of
        Inl err \<Rightarrow> Inl err
      | Inr st' \<Rightarrow> AnnotatePatterns fi max_tokens example_text st' rest)"

text \<open>
  \<open>_AnnotateExample(example, label_patterns)\<close>, with \<open>re.finditer\<close> and the value of
  \<open>MAX_ANNOTATION_TOKENS\<close> as parameters. The example is written only by the last
  statement, so a call that raises leaves it as it was. The result is the example
  returned and the log.
\<close>

definition AnnotateExample ::
  "finditer \<Rightarrow> int option \<Rightarrow> example \<Rightarrow> LabelPattern list
   \<Rightarrow> error + (example \<times> log_event list)" where
  "AnnotateExample fi max_tokens ex label_patterns =
     (case AnnotatePatterns fi max_tokens (content ex)
             (map AnnotationOfJson (annotations ex), [], False) label_patterns of
        Inl err \<Rightarrow> Inl err
      | Inr st \<Rightarrow> Inr (ex\<lparr>annotations := map AnnotationToJson (fst st)\<rparr>, fst (snd st)))"

section \<open>\<open>_ParseDictionary\<close>\<close>

text \<open>
  \<open>re.match(r'\w+', label)\<close>: the longest run of word characters at the start of the
  label; there is a match exactly when the run is not empty.
\<close>

definition leading_word :: "string \<Rightarrow> string" where
  "leading_word lbl = takeWhile is_word lbl"

text \<open>
  The body of \<open>for row in csv_reader\<close>, on the state (\<open>label_patterns\<close>,
  \<open>pattern_and_mode\<close>, log). A row comes with \<open>csv_reader.line_num\<close>. \<open>row[2]\<close> is read
  without a test of the row's length; \<open>row[3]\<close> is read under \<open>len(row) > 3\<close>.
\<close>

definition ParseRow ::
  "int option \<Rightarrow> LabelPattern list \<times> (string \<times> string \<rightharpoonup> nat) \<times> log_event list
   \<Rightarrow> nat \<times> string list
   \<Rightarrow> error + (LabelPattern list \<times> (string \<times> string \<rightharpoonup> nat) \<times> log_event list)" where
  "ParseRow max_label_length st numbered_row =
     (let label_patterns = fst st; pattern_and_mode = fst (snd st); log = snd (snd st);
          line_num = fst numbered_row; row = snd numbered_row
      in if length row < 2
         then Inr (label_patterns, pattern_and_mode, log @ [Skipped_malformed line_num row])
         else if length row \<le> 2 then Inl IndexError
         else
           let pattern = py_strip (row ! 0);
               label = py_strip (row ! 1);
               mode0 = py_lower (py_strip (row ! 2));
               group = (if length row > 3 then py_strip (row ! 3) else []);
               mode = (if mode0 \<in> set MATCHING_MODES then mode0 else EXACT_MATCH)
           in if pattern = [] \<or> label = []
              then Inr (label_patterns, pattern_and_mode,
                        log @ [Skipped_malformed line_num row])
              else if pattern_and_mode (pattern, mode) \<noteq> None
              then Inr (label_patterns, pattern_and_mode,
                        log @ [Skipped_duplicate line_num row])
              else if leading_word label \<noteq> [] \<and>
                      over_limit max_label_length (length (leading_word label))
              then Inr (label_patterns, pattern_and_mode,
                        log @ [Skipped_invalid_label line_num row])
              else Inr (label_patterns @
                          [\<lparr>pattern = pattern, lp_label = label, matching_mode = mode,
                            matching_group = group\<rparr>],
                        pattern_and_mode((pattern, mode) \<mapsto> 1), log))"

fun ParseRows ::
  "int option \<Rightarrow> LabelPattern list \<times> (string \<times> string \<rightharpoonup> nat) \<times> log_event list
   \<Rightarrow> (nat \<times> string list) list
   \<Rightarrow> error + (LabelPattern list \<times> (string \<times> string \<rightharpoonup> nat) \<times> log_event list)" where
  "ParseRows max_label_length st [] = Inr st"
| "ParseRows max_label_length st (r # rs) =
     (case ParseRow max_label_length st r of
        Inl err \<Rightarrow> Inl err
      | Inr st' \<Rightarrow> ParseRows max_label_length st' rs)"

text \<open>
  \<open>_ParseDictionary\<close> from the rows \<open>csv.reader\<close> yields on (opening the file and the
  CSV syntax are outside the model), with the value of \<open>MAX_LABEL_LENGTH\<close> as a
  parameter. The result is the list returned and the log.
\<close>

definition ParseDictionary ::
  "int option \<Rightarrow> (nat \<times> string list) list \<Rightarrow> error + (LabelPattern list \<times> log_event list)" where
  "ParseDictionary max_label_length rows =
     (case ParseRows max_label_length ([], Map.empty, []) rows of
        Inl err \<Rightarrow> Inl err
      | Inr st \<Rightarrow> Inr (fst st, snd (snd st) @ [Parsed (length (fst st))]))"

section \<open>\<open>re.finditer\<close> on literal patterns\<close>

text \<open>
  A model of \<open>re.finditer\<close> for the expressions the examples below use: a literal of
  word characters, optionally enclosed in one capture group, optionally with \<open>\b\<close> in
  front and behind. Every other expression is answered with \<open>Unsupported\<close>, which is
  a limit of this model and not a behaviour of \<open>re\<close>.
\<close>

record regex =
  anchored_left :: bool
  grouped :: bool
  literal :: string
  anchored_right :: bool

definition parse_core :: "bool \<Rightarrow> bool \<Rightarrow> string \<Rightarrow> regex option" where
  "parse_core l r core =
     (if list_all is_word core
      then Some \<lparr>anchored_left = l, grouped = False, literal = core, anchored_right = r\<rparr>
      else if 2 \<le> length core \<and> hd core = CHR ''('' \<and> last core = CHR '')'' \<and>
              list_all is_word (butlast (tl core))
      then Some \<lparr>anchored_left = l, grouped = True, literal = butlast (tl core),
                 anchored_right = r\<rparr>
      else None)"

definition parse_regex :: "string \<Rightarrow> regex option" where
  "parse_regex rx =
     (let l = (take 2 rx = word_boundary);
          rx1 = (if l then drop 2 rx else rx);
          r = (2 \<le> length rx1 \<and> drop (length rx1 - 2) rx1 = word_boundary);
          core = (if r then take (length rx1 - 2) rx1 else rx1)
      in parse_core l r core)"

text \<open>
  \<open>\b\<close> at offset \<open>i\<close>: exactly one of the characters before and after the offset is a
  word character (the ends of the text count as non-word).
\<close>

definition at_boundary :: "string \<Rightarrow> nat \<Rightarrow> bool" where
  "at_boundary txt i =
     ((0 < i \<and> i \<le> length txt \<and> is_word (txt ! (i - 1))) \<noteq>
      (i < length txt \<and> is_word (txt ! i)))"

definition chars_eq :: "bool \<Rightarrow> char \<Rightarrow> char \<Rightarrow> bool" where
  "chars_eq ignorecase c d =
     (if ignorecase then py_lower_char c = py_lower_char d else c = d)"

definition matches_at :: "regex \<Rightarrow> bool \<Rightarrow> string \<Rightarrow> nat \<Rightarrow> bool" where
  "matches_at rx ignorecase txt i =
     (i + length (literal rx) \<le> length txt \<and>
      (if anchored_left rx then at_boundary txt i else True) \<and>
      list_all2 (chars_eq ignorecase) (literal rx) (take (length (literal rx)) (drop i txt)) \<and>
      (if anchored_right rx then at_boundary txt (i + length (literal rx)) else True))"

definition match_at :: "regex \<Rightarrow> nat \<Rightarrow> rmatch" where
  "match_at rx i =
     \<lparr>span0 = (i, i + length (literal rx)),
      subgroups = (if grouped rx then [Some (i, i + length (literal rx))] else [])\<rparr>"

text \<open>
  The scan from offset \<open>i\<close>: the leftmost match at or after \<open>i\<close> is yielded and the scan
  goes on where it ends (one further for an empty match), until the offset passes the
  end of the text.
\<close>

function scan :: "regex \<Rightarrow> bool \<Rightarrow> string \<Rightarrow> nat \<Rightarrow> rmatch list" where
  "scan rx ignorecase txt i =
     (if length txt < i then []
      else if matches_at rx ignorecase txt i
      then match_at rx i # scan rx ignorecase txt (i + max 1 (length (literal rx)))
      else scan rx ignorecase txt (Suc i))"
  by pat_completeness auto
termination
  by (relation "measure (\<lambda>(rx, ignorecase, txt, i). Suc (length txt) - i)") auto

declare scan.simps [simp del]

definition re_finditer :: finditer where
  "re_finditer rx ignorecase txt =
     (case parse_regex rx of
        None \<Rightarrow> Inl Unsupported
      | Some r \<Rightarrow> Inr (scan r ignorecase txt 0))"

section \<open>Notions used to state the properties\<close>

text \<open>
  The key under which \<open>_ParseDictionary\<close> registers a rule, and, for a row of at least
  three fields, the values its loop body computes from the row: the key
  \<open>(pattern, mode)\<close> and the rule appended when the row is accepted.
\<close>

definition lp_key :: "LabelPattern \<Rightarrow> string \<times> string" where
  "lp_key lp = (pattern lp, matching_mode lp)"

definition row_mode :: "string list \<Rightarrow> string" where
  "row_mode row =
     (if py_lower (py_strip (row ! 2)) \<in> set MATCHING_MODES
      then py_lower (py_strip (row ! 2)) else EXACT_MATCH)"

definition row_key :: "string list \<Rightarrow> string \<times> string" where
  "row_key row = (py_strip (row ! 0), row_mode row)"

definition rule_of_row :: "string list \<Rightarrow> LabelPattern" where
  "rule_of_row row =
     \<lparr>pattern = py_strip (row ! 0), lp_label = py_strip (row ! 1),
      matching_mode = row_mode row,
      matching_group = (if length row > 3 then py_strip (row ! 3) else [])\<rparr>"

text \<open>
  A row passes every check other than the duplicate test: it has the fields the body
  reads, its trimmed pattern and label are not empty, and its label is not rejected
  for its length.
\<close>

definition passes_checks :: "int option \<Rightarrow> string list \<Rightarrow> bool" where
  "passes_checks max_label_length row =
     (3 \<le> length row \<and> py_strip (row ! 0) \<noteq> [] \<and> py_strip (row ! 1) \<noteq> [] \<and>
      \<not> (leading_word (py_strip (row ! 1)) \<noteq> [] \<and>
         over_limit max_label_length (length (leading_word (py_strip (row ! 1))))))"

text \<open>
  The dictionary as the specification words it: the rules of the rows that pass the
  checks, in input order, each \<open>(pattern, mode)\<close> pair kept at its first occurrence only.
\<close>

fun first_occurrences :: "(string \<times> string) list \<Rightarrow> LabelPattern list \<Rightarrow> LabelPattern list" where
  "first_occurrences seen [] = []"
| "first_occurrences seen (lp # lps) =
     (if lp_key lp \<in> set seen then first_occurrences seen lps
      else lp # first_occurrences (lp_key lp # seen) lps)"

definition passing_rules :: "int option \<Rightarrow> (nat \<times> string list) list \<Rightarrow> LabelPattern list" where
  "passing_rules max_label_length rows =
     map rule_of_row (filter (passes_checks max_label_length) (map snd rows))"

text \<open>
  The candidates of a run in rule order and, within a rule, in match order: for each
  match the annotation \<open>Annotation(match.start(g), match.end(g), label)\<close> the loop body
  would build, left out where the group does not exist.
\<close>

definition candidate :: "string \<Rightarrow> int \<Rightarrow> rmatch \<Rightarrow> Annotation option" where
  "candidate lbl label_group m =
     (case match_start m label_group of
        Inl err \<Rightarrow> None
      | Inr s \<Rightarrow>
          (case match_end m label_group of
             Inl err \<Rightarrow> None
           | Inr e \<Rightarrow> Some (Annotation s e lbl)))"

definition rule_candidates :: "finditer \<Rightarrow> string \<Rightarrow> LabelPattern \<Rightarrow> Annotation list" where
  "rule_candidates fi example_text label_pattern =
     (case select_matcher fi example_text label_pattern of
        Some (Inr ms) \<Rightarrow>
          (case label_group_of label_pattern of
             Inr label_group \<Rightarrow>
               List.map_filter (candidate (lp_label label_pattern) label_group) ms
           | Inl err \<Rightarrow> [])
      | _ \<Rightarrow> [])"

definition all_candidates :: "finditer \<Rightarrow> string \<Rightarrow> LabelPattern list \<Rightarrow> Annotation list" where
  "all_candidates fi example_text label_patterns =
     concat (map (rule_candidates fi example_text) label_patterns)"

text \<open>
  The pattern \<open>p\<close> occurs in the text at offset \<open>k\<close>; and it occurs there as a whole
  word, with no word character directly before or after the occurrence.
\<close>

definition occurs_at :: "string \<Rightarrow> string \<Rightarrow> nat \<Rightarrow> bool" where
  "occurs_at p example_text k =
     (k + length p \<le> length example_text \<and> take (length p) (drop k example_text) = p)"

definition whole_word_at :: "string \<Rightarrow> string \<Rightarrow> nat \<Rightarrow> bool" where
  "whole_word_at p example_text k =
     (occurs_at p example_text k \<and>
      (k = 0 \<or> \<not> is_word (example_text ! (k - 1))) \<and>
      (k + length p = length example_text \<or> \<not> is_word (example_text ! (k + length p))))"

text \<open>
  What \<open>_AddAnnotation\<close> guarantees for a run of additions to the annotations
  \<open>present\<close>: each added annotation, tested as first argument of \<open>_HasOverlap\<close>,
  overlapped none of the annotations that were in the list when it was added.
\<close>

fun added_clear :: "Annotation list \<Rightarrow> Annotation list \<Rightarrow> bool" where
  "added_clear present [] = True"
| "added_clear present (c # cs) =
     (\<not> overlaps_any c present \<and> added_clear (present @ [c]) cs)"

section \<open>Properties\<close>

lemma overlaps_any_iff: "overlaps_any c anns \<longleftrightarrow> (\<exists>a \<in> set anns. HasOverlap c a)"
  by (induction anns) auto




subsection \<open>The dictionary parser\<close>

text \<open>The three ways one row leaves the loop body without an exception.\<close>

lemma ParseRow_skip:
  assumes "ParseRow mll st (n, row) = Inr st1" and "\<not> passes_checks mll row"
  shows "fst st1 = fst st \<and> fst (snd st1) = fst (snd st) \<and>
         (\<exists>ev. snd (snd st1) = snd (snd st) @ [ev])"
  using assms
  by (auto simp: ParseRow_def passes_checks_def Let_def split: if_splits)

lemma ParseRow_dup:
  assumes "passes_checks mll row" and "fst (snd st) (row_key row) \<noteq> None"
  shows "ParseRow mll st (n, row) =
           Inr (fst st, fst (snd st), snd (snd st) @ [Skipped_duplicate n row])"
  using assms
  by (auto simp: ParseRow_def passes_checks_def row_key_def row_mode_def Let_def)

lemma ParseRow_acc:
  assumes "passes_checks mll row" and "fst (snd st) (row_key row) = None"
  shows "ParseRow mll st (n, row) =
           Inr (fst st @ [rule_of_row row], (fst (snd st))(row_key row \<mapsto> 1), snd (snd st))"
  using assms
  by (auto simp: ParseRow_def passes_checks_def row_key_def row_mode_def rule_of_row_def Let_def)

lemma lp_key_rule_of_row: "lp_key (rule_of_row row) = row_key row"
  by (simp add: lp_key_def rule_of_row_def row_key_def)

text \<open>
  The loop computes the list of the specification's wording: with \<open>seen\<close> the pairs
  registered so far, it appends the first occurrences among the rules of the passing
  rows, and registers exactly their pairs.
\<close>

lemma ParseRows_char:
  "ParseRows mll st rows = Inr st' \<Longrightarrow> dom (fst (snd st)) = set seen \<Longrightarrow>
     fst st' = fst st @ first_occurrences seen (passing_rules mll rows) \<and>
     dom (fst (snd st')) = set seen \<union> lp_key ` set (passing_rules mll rows) \<and>
     (\<exists>l. snd (snd st') = snd (snd st) @ l)"
proof (induction rows arbitrary: st seen)
  case Nil
  then show ?case by (simp add: passing_rules_def)
next
  case (Cons r rows)
  obtain n row where r: "r = (n, row)" by (cases r)
  from Cons.prems(1) obtain st1 where
    step: "ParseRow mll st (n, row) = Inr st1" and rest: "ParseRows mll st1 rows = Inr st'"
    by (auto simp: r split: sum.splits)
  consider
    (skip) "\<not> passes_checks mll row"
  | (dup) "passes_checks mll row" "fst (snd st) (row_key row) \<noteq> None"
  | (acc) "passes_checks mll row" "fst (snd st) (row_key row) = None"
    by blast
  then show ?case
  proof cases
    case skip
    note sk = ParseRow_skip[OF step skip]
    have d: "dom (fst (snd st1)) = set seen" using sk Cons.prems(2) by simp
    have p: "passing_rules mll (r # rows) = passing_rules mll rows"
      using skip by (simp add: passing_rules_def r)
    from Cons.IH[OF rest d] sk show ?thesis by (auto simp: p)
  next
    case dup
    have s1: "st1 = (fst st, fst (snd st), snd (snd st) @ [Skipped_duplicate n row])"
      using ParseRow_dup[OF dup, of n] step by simp
    have d: "dom (fst (snd st1)) = set seen" using s1 Cons.prems(2) by simp
    have k: "row_key row \<in> set seen" using dup(2) Cons.prems(2)[symmetric] by (simp add: domIff)
    have p: "passing_rules mll (r # rows) = rule_of_row row # passing_rules mll rows"
      using dup(1) by (simp add: passing_rules_def r)
    from Cons.IH[OF rest d] s1 k show ?thesis by (auto simp: p lp_key_rule_of_row)
  next
    case acc
    have s1: "st1 = (fst st @ [rule_of_row row], (fst (snd st))(row_key row \<mapsto> 1), snd (snd st))"
      using ParseRow_acc[OF acc, of n] step by simp
    have d: "dom (fst (snd st1)) = set (row_key row # seen)" using s1 Cons.prems(2) by simp
    have k: "row_key row \<notin> set seen" using acc(2) Cons.prems(2)[symmetric] by (simp add: domIff)
    have p: "passing_rules mll (r # rows) = rule_of_row row # passing_rules mll rows"
      using acc(1) by (simp add: passing_rules_def r)
    from Cons.IH[OF rest d] s1 k show ?thesis by (auto simp: p lp_key_rule_of_row)
  qed
qed

lemma ParseDictionary_refines:
  "ParseDictionary mll rows = Inr (lps, log) \<Longrightarrow>
     lps = first_occurrences [] (passing_rules mll rows)"
  using ParseRows_char[of mll "([], Map.empty, [])" rows _ "[]"]
  by (auto simp: ParseDictionary_def split: sum.splits)

lemma subseq_first_occurrences: "subseq (first_occurrences seen xs) xs"
  by (induction xs arbitrary: seen) auto

lemma keys_first_occurrences:
  "lp_key ` set (first_occurrences seen xs) \<inter> set seen = {} \<and>
   distinct (map lp_key (first_occurrences seen xs))"
proof (induction xs arbitrary: seen)
  case Nil
  then show ?case by simp
next
  case (Cons x xs)
  from Cons[of seen] Cons[of "lp_key x # seen"] show ?case by auto
qed

lemma filter_first_occurrences:
  "filter (\<lambda>lp. lp_key lp = k) (first_occurrences seen xs) =
     (if k \<in> set seen then []
      else case find (\<lambda>lp. lp_key lp = k) xs of None \<Rightarrow> [] | Some lp \<Rightarrow> [lp])"
  by (induction xs arbitrary: seen) auto


lemma keys_union_first_occurrences:
  "lp_key ` set (first_occurrences seen xs) \<union> set seen = lp_key ` set xs \<union> set seen"
proof (induction xs arbitrary: seen)
  case Nil
  then show ?case by simp
next
  case (Cons x xs)
  from Cons[of seen] Cons[of "lp_key x # seen"] show ?case by auto
qed

lemma ParseRows_append:
  "ParseRows mll st (xs @ ys) =
     (case ParseRows mll st xs of Inl err \<Rightarrow> Inl err | Inr st1 \<Rightarrow> ParseRows mll st1 ys)"
  by (induction xs arbitrary: st) (auto split: sum.splits)

lemma passing_rules_append:
  "passing_rules mll (xs @ ys) = passing_rules mll xs @ passing_rules mll ys"
  by (simp add: passing_rules_def)

lemma find_append_None:
  "find P xs = None \<Longrightarrow> find P (xs @ ys) = find P ys"
  by (induction xs) (auto split: if_splits)

lemma ParseRows_split:
  assumes "ParseRows mll st rows = Inr st'" and "j < length rows"
  obtains st1 st2 where "ParseRows mll st (take j rows) = Inr st1"
    and "ParseRow mll st1 (rows ! j) = Inr st2"
    and "ParseRows mll st2 (drop (Suc j) rows) = Inr st'"
proof -
  have "rows = take j rows @ rows ! j # drop (Suc j) rows"
    using assms(2) by (simp add: id_take_nth_drop)
  then have "ParseRows mll st (take j rows @ rows ! j # drop (Suc j) rows) = Inr st'"
    using assms(1) by simp
  then show thesis
    using that by (auto simp: ParseRows_append split: sum.splits)
qed

lemma ParseRow_log:
  assumes "ParseRow mll st r = Inr st1"
  shows "\<exists>l. snd (snd st1) = snd (snd st) @ l"
proof -
  obtain n row where r: "r = (n, row)" by (cases r)
  show ?thesis
  proof (cases "passes_checks mll row")
    case False
    with ParseRow_skip[of mll st n row st1] assms r show ?thesis by auto
  next
    case True
    show ?thesis
    proof (cases "fst (snd st) (row_key row) = None")
      case True
      with ParseRow_acc[OF \<open>passes_checks mll row\<close> True, of n] assms r show ?thesis by auto
    next
      case False
      with ParseRow_dup[OF \<open>passes_checks mll row\<close> False, of n] assms r show ?thesis by auto
    qed
  qed
qed

lemma ParseRows_log:
  "ParseRows mll st rows = Inr st' \<Longrightarrow> \<exists>l. snd (snd st') = snd (snd st) @ l"
proof (induction rows arbitrary: st)
  case Nil
  then show ?case by simp
next
  case (Cons r rows)
  from Cons.prems obtain st1 where
    step: "ParseRow mll st r = Inr st1" and rest: "ParseRows mll st1 rows = Inr st'"
    by (auto split: sum.splits)
  from ParseRow_log[OF step] Cons.IH[OF rest] show ?case by auto
qed

lemma ParseRow_grows:
  assumes "ParseRow mll st r = Inr st1"
  shows "\<exists>l. fst st1 = fst st @ l"
proof -
  obtain n row where r: "r = (n, row)" by (cases r)
  show ?thesis
  proof (cases "passes_checks mll row")
    case False
    with ParseRow_skip[of mll st n row st1] assms r show ?thesis by auto
  next
    case True
    show ?thesis
    proof (cases "fst (snd st) (row_key row) = None")
      case True
      with ParseRow_acc[OF \<open>passes_checks mll row\<close> True, of n] assms r show ?thesis by auto
    next
      case False
      with ParseRow_dup[OF \<open>passes_checks mll row\<close> False, of n] assms r show ?thesis by auto
    qed
  qed
qed

lemma ParseRows_grows:
  "ParseRows mll st rows = Inr st' \<Longrightarrow> \<exists>l. fst st' = fst st @ l"
proof (induction rows arbitrary: st)
  case Nil
  then show ?case by simp
next
  case (Cons r rows)
  from Cons.prems obtain st1 where
    step: "ParseRow mll st r = Inr st1" and rest: "ParseRows mll st1 rows = Inr st'"
    by (auto split: sum.splits)
  from ParseRow_grows[OF step] Cons.IH[OF rest] show ?case by auto
qed

lemma passing_rules_take_keys:
  assumes "\<forall>k<i. passes_checks mll (snd (rows ! k)) \<longrightarrow> row_key (snd (rows ! k)) \<noteq> key"
    and "i \<le> length rows"
  shows "key \<notin> lp_key ` set (passing_rules mll (take i rows))"
proof
  assume "key \<in> lp_key ` set (passing_rules mll (take i rows))"
  then obtain r where r: "r \<in> set (take i rows)" "passes_checks mll (snd r)"
      "row_key (snd r) = key"
    by (auto simp: passing_rules_def lp_key_rule_of_row)
  from r(1) obtain k where "k < length (take i rows)" "take i rows ! k = r"
    by (auto simp: in_set_conv_nth)
  then have "k < i" "rows ! k = r" using assms(2) by auto
  with assms(1) r(2,3) show False by auto
qed

text \<open>
  Claim C8. Whenever \<open>_ParseDictionary\<close> returns: if two rows \<open>i < j\<close> pass the checks
  and carry the same (trimmed pattern, normalised mode) pair, \<open>i\<close> being the first such
  row, then the only rule of the output with that pair is the rule of row \<open>i\<close>, row \<open>j\<close>
  is logged as a skipped duplicate, the output is a subsequence of the rules of the
  passing rows in input order, and no pair occurs twice in the output.
\<close>

theorem ParseDictionary_dedup:
  assumes "ParseDictionary mll rows = Inr (lps, log)"
    and "i < j" and "j < length rows"
    and "passes_checks mll (snd (rows ! i))" and "passes_checks mll (snd (rows ! j))"
    and "row_key (snd (rows ! j)) = row_key (snd (rows ! i))"
    and "\<forall>k<i. passes_checks mll (snd (rows ! k)) \<longrightarrow>
           row_key (snd (rows ! k)) \<noteq> row_key (snd (rows ! i))"
  shows "filter (\<lambda>lp. lp_key lp = row_key (snd (rows ! i))) lps = [rule_of_row (snd (rows ! i))]
       \<and> Skipped_duplicate (fst (rows ! j)) (snd (rows ! j)) \<in> set log
       \<and> subseq lps (passing_rules mll rows)
       \<and> distinct (map lp_key lps)"
proof -
  let ?k = "row_key (snd (rows ! i))"
  have lps: "lps = first_occurrences [] (passing_rules mll rows)"
    using assms(1) by (rule ParseDictionary_refines)
  have i: "i < length rows" using assms(2,3) by simp
  have split_i: "rows = take i rows @ rows ! i # drop (Suc i) rows"
    using i by (simp add: id_take_nth_drop)
  have none: "find (\<lambda>lp. lp_key lp = ?k) (passing_rules mll (take i rows)) = None"
    using passing_rules_take_keys[OF assms(7)] i
    by (simp add: find_None_iff image_iff) metis
  have "passing_rules mll rows =
          passing_rules mll (take i rows) @ passing_rules mll (rows ! i # drop (Suc i) rows)"
    using split_i passing_rules_append[of mll "take i rows" "rows ! i # drop (Suc i) rows"]
    by simp
  then have "find (\<lambda>lp. lp_key lp = ?k) (passing_rules mll rows) =
               find (\<lambda>lp. lp_key lp = ?k) (passing_rules mll (rows ! i # drop (Suc i) rows))"
    using find_append_None[OF none] by simp
  also have "\<dots> = Some (rule_of_row (snd (rows ! i)))"
    using assms(4) by (simp add: passing_rules_def lp_key_rule_of_row)
  finally have first: "filter (\<lambda>lp. lp_key lp = ?k) lps = [rule_of_row (snd (rows ! i))]"
    by (simp add: lps filter_first_occurrences)
  obtain st' where st': "ParseRows mll ([], Map.empty, []) rows = Inr st'"
      and log: "log = snd (snd st') @ [Parsed (length (fst st'))]"
    using assms(1) by (auto simp: ParseDictionary_def split: sum.splits)
  from ParseRows_split[OF st' assms(3)] obtain st1 st2 where
    pre: "ParseRows mll ([], Map.empty, []) (take j rows) = Inr st1"
    and step: "ParseRow mll st1 (rows ! j) = Inr st2"
    and post: "ParseRows mll st2 (drop (Suc j) rows) = Inr st'"
    by blast
  have "rows ! i \<in> set (take j rows)"
    using assms(2,3) by (auto simp: in_set_conv_nth intro!: exI[of _ i])
  then have "rule_of_row (snd (rows ! i)) \<in> set (passing_rules mll (take j rows))"
    using assms(4) by (auto simp: passing_rules_def)
  then have "?k \<in> lp_key ` set (passing_rules mll (take j rows))"
    by (metis imageI lp_key_rule_of_row)
  moreover have "dom (fst (snd st1)) = set [] \<union> lp_key ` set (passing_rules mll (take j rows))"
    using ParseRows_char[OF pre, of "[]"] by simp
  ultimately have "fst (snd st1) (row_key (snd (rows ! j))) \<noteq> None"
    using assms(6) by (auto simp: domIff)
  from ParseRow_dup[OF assms(5) this, of "fst (rows ! j)"] step
  have "snd (snd st2) = snd (snd st1) @ [Skipped_duplicate (fst (rows ! j)) (snd (rows ! j))]"
    by simp
  moreover obtain l where "snd (snd st') = snd (snd st2) @ l"
    using ParseRows_log[OF post] by blast
  ultimately have logged: "Skipped_duplicate (fst (rows ! j)) (snd (rows ! j)) \<in> set log"
    using log by simp
  show ?thesis
    using first logged subseq_first_occurrences[of "[]" "passing_rules mll rows"]
      keys_first_occurrences[of "[]" "passing_rules mll rows"]
    by (simp add: lps)
qed


text \<open>
  An instance: the second row repeats the pair of the first after trimming and
  lower-casing, and is skipped.
\<close>

theorem ParseDictionary_dedup_witness:
  "ParseDictionary MAX_LABEL_LENGTH
     [(1, [''Paris'', ''CITY'', ''e'']), (2, ['' Paris'', ''TOWN'', ''E'', ''1'']),
      (3, [''flight'', ''TRANSPORT'', ''e''])] =
     Inr ([\<lparr>pattern = ''Paris'', lp_label = ''CITY'', matching_mode = ''e'', matching_group = []\<rparr>,
           \<lparr>pattern = ''flight'', lp_label = ''TRANSPORT'', matching_mode = ''e'',
             matching_group = []\<rparr>],
          [Skipped_duplicate 2 ['' Paris'', ''TOWN'', ''E'', ''1''], Parsed 2])
   \<and> filter (\<lambda>lp. lp_key lp = (''Paris'', ''e''))
        [\<lparr>pattern = ''Paris'', lp_label = ''CITY'', matching_mode = ''e'', matching_group = []\<rparr>,
         \<lparr>pattern = ''flight'', lp_label = ''TRANSPORT'', matching_mode = ''e'',
           matching_group = []\<rparr>] =
       [\<lparr>pattern = ''Paris'', lp_label = ''CITY'', matching_mode = ''e'', matching_group = []\<rparr>]"
proof -
  let ?rows = "[(1::nat, [''Paris'', ''CITY'', ''e'']), (2, ['' Paris'', ''TOWN'', ''E'', ''1'']),
      (3, [''flight'', ''TRANSPORT'', ''e''])]"
  let ?lps = "[\<lparr>pattern = ''Paris'', lp_label = ''CITY'', matching_mode = ''e'', matching_group = []\<rparr>,
           \<lparr>pattern = ''flight'', lp_label = ''TRANSPORT'', matching_mode = ''e'',
             matching_group = []\<rparr>]"
  let ?log = "[Skipped_duplicate 2 ['' Paris'', ''TOWN'', ''E'', ''1''], Parsed 2]"
  have run: "ParseDictionary MAX_LABEL_LENGTH ?rows = Inr (?lps, ?log)"
    by code_simp
  have p0: "passes_checks MAX_LABEL_LENGTH (snd (?rows ! 0))" by code_simp
  have p1: "passes_checks MAX_LABEL_LENGTH (snd (?rows ! 1))" by code_simp
  have k: "row_key (snd (?rows ! 1)) = row_key (snd (?rows ! 0))" by code_simp
  have k0: "row_key (snd (?rows ! 0)) = (''Paris'', ''e'')" by code_simp
  have r0: "rule_of_row (snd (?rows ! 0)) =
      \<lparr>pattern = ''Paris'', lp_label = ''CITY'', matching_mode = ''e'', matching_group = []\<rparr>"
    by code_simp
  from ParseDictionary_dedup[OF run _ _ p0 p1 k]
  have "filter (\<lambda>lp. lp_key lp = row_key (snd (?rows ! 0))) ?lps = [rule_of_row (snd (?rows ! 0))]"
    by simp
  then show ?thesis using run unfolding k0 r0 by simp
qed

text \<open>
  Claim C10. A pair is registered in \<open>pattern_and_mode\<close> only together with an accepted
  rule. So when every earlier row carrying the pair of row \<open>j\<close> was rejected by a
  check, the pair is not registered when row \<open>j\<close> is reached, and a row \<open>j\<close> that passes
  the checks is appended to the output rather than skipped as a duplicate.
\<close>

theorem ParseDictionary_registers_accepted_rows_only:
  assumes "ParseDictionary mll rows = Inr (lps, log)"
    and "j < length rows"
    and "passes_checks mll (snd (rows ! j))"
    and "\<forall>i<j. row_key (snd (rows ! i)) = row_key (snd (rows ! j)) \<longrightarrow>
           \<not> passes_checks mll (snd (rows ! i))"
  shows "\<exists>st. ParseRows mll ([], Map.empty, []) (take j rows) = Inr st
           \<and> dom (fst (snd st)) = lp_key ` set (fst st)
           \<and> fst (snd st) (row_key (snd (rows ! j))) = None
           \<and> ParseRow mll st (rows ! j) =
               Inr (fst st @ [rule_of_row (snd (rows ! j))],
                    (fst (snd st))(row_key (snd (rows ! j)) \<mapsto> 1), snd (snd st))
           \<and> rule_of_row (snd (rows ! j)) \<in> set lps"
proof -
  let ?r = "snd (rows ! j)"
  obtain st' where st': "ParseRows mll ([], Map.empty, []) rows = Inr st'"
      and lps: "lps = fst st'"
    using assms(1) by (auto simp: ParseDictionary_def split: sum.splits)
  from ParseRows_split[OF st' assms(2)] obtain st1 st2 where
    pre: "ParseRows mll ([], Map.empty, []) (take j rows) = Inr st1"
    and step: "ParseRow mll st1 (rows ! j) = Inr st2"
    and post: "ParseRows mll st2 (drop (Suc j) rows) = Inr st'"
    by blast
  note c = ParseRows_char[OF pre, of "[]"]
  have fst1: "fst st1 = first_occurrences [] (passing_rules mll (take j rows))"
    using c by simp
  have dom1: "dom (fst (snd st1)) = lp_key ` set (passing_rules mll (take j rows))"
    using c by simp
  have reg: "dom (fst (snd st1)) = lp_key ` set (fst st1)"
    using keys_union_first_occurrences[of "[]" "passing_rules mll (take j rows)"]
    by (simp add: fst1 dom1)
  have "\<forall>k<j. passes_checks mll (snd (rows ! k)) \<longrightarrow> row_key (snd (rows ! k)) \<noteq> row_key ?r"
    using assms(4) by blast
  from passing_rules_take_keys[OF this] assms(2)
  have fresh: "fst (snd st1) (row_key ?r) = None"
    by (simp add: dom1[symmetric] domIff)
  have acc: "ParseRow mll st1 (rows ! j) =
               Inr (fst st1 @ [rule_of_row ?r], (fst (snd st1))(row_key ?r \<mapsto> 1), snd (snd st1))"
    using ParseRow_acc[OF assms(3) fresh, of "fst (rows ! j)"] by simp
  then have "fst st2 = fst st1 @ [rule_of_row ?r]" using step by auto
  moreover obtain l where "fst st' = fst st2 @ l"
    using ParseRows_grows[OF post] by blast
  ultimately have "rule_of_row ?r \<in> set lps"
    by (simp add: lps)
  with pre reg fresh acc show ?thesis by blast
qed


text \<open>
  An instance with a maximum label length of 3: the first row is rejected for its
  label, the second row with the same pair is accepted.
\<close>

theorem ParseDictionary_registers_accepted_rows_only_witness:
  "ParseDictionary (Some 3) [(1, [''p'', ''LONG'', ''e'']), (2, [''p'', ''OK'', ''e''])] =
     Inr ([\<lparr>pattern = ''p'', lp_label = ''OK'', matching_mode = ''e'', matching_group = []\<rparr>],
          [Skipped_invalid_label 1 [''p'', ''LONG'', ''e''], Parsed 1])
   \<and> ParseRow (Some 3) ([], Map.empty, [Skipped_invalid_label 1 [''p'', ''LONG'', ''e'']])
        (2, [''p'', ''OK'', ''e'']) =
       Inr ([\<lparr>pattern = ''p'', lp_label = ''OK'', matching_mode = ''e'', matching_group = []\<rparr>],
            [(''p'', ''e'') \<mapsto> 1], [Skipped_invalid_label 1 [''p'', ''LONG'', ''e'']])"
proof -
  let ?rows = "[(1::nat, [''p'', ''LONG'', ''e'']), (2, [''p'', ''OK'', ''e''])]"
  let ?lps = "[\<lparr>pattern = ''p'', lp_label = ''OK'', matching_mode = ''e'', matching_group = []\<rparr>]"
  let ?log = "[Skipped_invalid_label 1 [''p'', ''LONG'', ''e''], Parsed 1]"
  have run: "ParseDictionary (Some 3) ?rows = Inr (?lps, ?log)"
    by code_simp
  have p1: "passes_checks (Some 3) (snd (?rows ! 1))" by code_simp
  have p0: "\<not> passes_checks (Some 3) (snd (?rows ! 0))" by code_simp
  have rej: "\<forall>i<1. row_key (snd (?rows ! i)) = row_key (snd (?rows ! 1)) \<longrightarrow>
               \<not> passes_checks (Some 3) (snd (?rows ! i))"
    using p0 by simp
  have pre: "ParseRows (Some 3) ([], Map.empty, []) (take 1 ?rows) =
               Inr ([], Map.empty, [Skipped_invalid_label 1 [''p'', ''LONG'', ''e'']])"
    by (simp add: ParseRow_def passes_checks_def Let_def leading_word_def is_word_def
          py_strip_def py_isspace_def)
  have k1: "row_key (snd (?rows ! 1)) = (''p'', ''e'')" by code_simp
  have r1: "rule_of_row (snd (?rows ! 1)) =
      \<lparr>pattern = ''p'', lp_label = ''OK'', matching_mode = ''e'', matching_group = []\<rparr>"
    by code_simp
  from ParseDictionary_registers_accepted_rows_only[OF run _ p1 rej]
  obtain st where st: "ParseRows (Some 3) ([], Map.empty, []) (take 1 ?rows) = Inr st"
    and step: "ParseRow (Some 3) st (?rows ! 1) =
               Inr (fst st @ [rule_of_row (snd (?rows ! 1))],
                    (fst (snd st))(row_key (snd (?rows ! 1)) \<mapsto> 1), snd (snd st))"
    by auto
  from st pre have "st = ([], Map.empty, [Skipped_invalid_label 1 [''p'', ''LONG'', ''e'']])"
    by simp
  with step show ?thesis using run unfolding k1 r1 by simp
qed

text \<open>
  Claim C4. A row of exactly two fields is not accepted with the default mode: the
  loop body reads \<open>row[2]\<close> before it tests anything else about such a row, so the row
  raises \<open>IndexError\<close> and the whole parse fails, whatever the two fields and the rows
  after it are (here with \<open>("Paris", "CITY")\<close> as the only row as well).
\<close>

theorem ParseDictionary_two_fields_raises:
  "ParseDictionary max_label_length ((n, [p, l]) # rows) = Inl IndexError
   \<and> ParseDictionary MAX_LABEL_LENGTH [(1, [''Paris'', ''CITY''])] = Inl IndexError"
  by (simp add: ParseDictionary_def ParseRow_def)

subsection \<open>The annotator\<close>

lemma added_clear_append:
  "added_clear present (xs @ ys) \<longleftrightarrow> added_clear present xs \<and> added_clear (present @ xs) ys"
  by (induction xs arbitrary: present) auto

lemma added_clear_nth:
  assumes "added_clear present added"
    and "length present \<le> j" and "j < length (present @ added)" and "i < j"
  shows "\<not> HasOverlap ((present @ added) ! j) ((present @ added) ! i)"
  using assms
proof (induction added arbitrary: present)
  case Nil
  then show ?case by simp
next
  case (Cons c cs)
  show ?case
  proof (cases "j = length present")
    case True
    then have "(present @ c # cs) ! j = c" by simp
    moreover have "(present @ c # cs) ! i \<in> set present"
      using Cons.prems(4) True by (simp add: nth_append)
    ultimately show ?thesis
      using Cons.prems(1) by (auto simp: overlaps_any_iff)
  next
    case False
    have "\<not> HasOverlap (((present @ [c]) @ cs) ! j) (((present @ [c]) @ cs) ! i)"
      using Cons.prems False by (intro Cons.IH) auto
    then show ?thesis by simp
  qed
qed

lemma AnnotateMatch_result:
  assumes "AnnotateMatch mt txt lbl g st m = Inr st'"
  shows "fst st' = fst st \<or>
         (\<exists>c. candidate lbl g m = Some c \<and> \<not> overlaps_any c (fst st) \<and>
              fst st' = fst st @ [c] \<and> start c < end' c)"
  using assms
  by (auto simp: AnnotateMatch_def candidate_def AddAnnotation_def Let_def
           split: sum.splits if_splits option.splits)

lemma AnnotateMatches_result:
  "AnnotateMatches mt txt lbl g st ms = Inr st' \<Longrightarrow>
     \<exists>added. fst st' = fst st @ added \<and> added_clear (fst st) added \<and>
             subseq added (List.map_filter (candidate lbl g) ms)"
proof (induction ms arbitrary: st)
  case Nil
  then show ?case by (simp add: map_filter_simps)
next
  case (Cons m ms)
  from Cons.prems obtain st1 where
    step: "AnnotateMatch mt txt lbl g st m = Inr st1"
    and rest: "AnnotateMatches mt txt lbl g st1 ms = Inr st'"
    by (auto split: sum.splits)
  from Cons.IH[OF rest] obtain added where
    a: "fst st' = fst st1 @ added" "added_clear (fst st1) added"
       "subseq added (List.map_filter (candidate lbl g) ms)"
    by blast
  from AnnotateMatch_result[OF step] show ?case
  proof
    assume "fst st1 = fst st"
    with a show ?thesis
      by (auto simp: map_filter_simps split: option.splits intro!: exI[of _ added])
  next
    assume "\<exists>c. candidate lbl g m = Some c \<and> \<not> overlaps_any c (fst st) \<and>
              fst st1 = fst st @ [c] \<and> start c < end' c"
    then obtain c where c: "candidate lbl g m = Some c" "\<not> overlaps_any c (fst st)"
        "fst st1 = fst st @ [c]"
      by blast
    with a show ?thesis
      by (auto simp: map_filter_simps intro!: exI[of _ "c # added"])
  qed
qed

lemma AnnotatePattern_result:
  assumes "AnnotatePattern fi mt txt st lp = Inr st'"
  shows "\<exists>added. fst st' = fst st @ added \<and> added_clear (fst st) added \<and>
             subseq added (rule_candidates fi txt lp)"
proof (cases "select_matcher fi txt lp")
  case None
  with assms have "st' = st"
    by (auto simp: AnnotatePattern_def split: sum.splits if_splits)
  then show ?thesis by (auto intro!: exI[of _ "[]"])
next
  case (Some r)
  with assms obtain ms g st1 where r: "r = Inr ms" and g: "label_group_of lp = Inr g"
    and run: "AnnotateMatches mt txt (lp_label lp) g (fst st, fst (snd st)) ms = Inr st1"
    and st': "st' = (fst st1, snd st1, True)"
    by (auto simp: AnnotatePattern_def split: sum.splits)
  from AnnotateMatches_result[OF run] show ?thesis
    by (simp add: rule_candidates_def Some r g st')
qed

lemma AnnotatePatterns_result:
  "AnnotatePatterns fi mt txt st lps = Inr st' \<Longrightarrow>
     \<exists>added. fst st' = fst st @ added \<and> added_clear (fst st) added \<and>
             subseq added (all_candidates fi txt lps)"
proof (induction lps arbitrary: st)
  case Nil
  then show ?case by (simp add: all_candidates_def)
next
  case (Cons lp lps)
  from Cons.prems obtain st1 where
    step: "AnnotatePattern fi mt txt st lp = Inr st1"
    and rest: "AnnotatePatterns fi mt txt st1 lps = Inr st'"
    by (auto split: sum.splits)
  from AnnotatePattern_result[OF step] obtain a1 where
    a1: "fst st1 = fst st @ a1" "added_clear (fst st) a1" "subseq a1 (rule_candidates fi txt lp)"
    by blast
  from Cons.IH[OF rest] obtain a2 where
    a2: "fst st' = fst st1 @ a2" "added_clear (fst st1) a2" "subseq a2 (all_candidates fi txt lps)"
    by blast
  have "subseq (a1 @ a2) (all_candidates fi txt (lp # lps))"
    using a1(3) a2(3) by (simp add: all_candidates_def list_emb_append_mono)
  with a1 a2 show ?case
    by (auto simp: added_clear_append intro!: exI[of _ "a1 @ a2"])
qed

lemma AnnotationToJson_OfJson: "AnnotationToJson (AnnotationOfJson a) = a"
  by (simp add: AnnotationToJson_def AnnotationOfJson_def)

lemma AnnotationOfJson_ToJson: "AnnotationOfJson (AnnotationToJson a) = a"
  by (simp add: AnnotationToJson_def AnnotationOfJson_def)

lemma AnnotateExample_result:
  assumes "AnnotateExample fi mt ex lps = Inr (ex', log)"
  shows "\<exists>added. ex' = ex\<lparr>annotations := annotations ex @ map AnnotationToJson added\<rparr> \<and>
            added_clear (map AnnotationOfJson (annotations ex)) added \<and>
            subseq added (all_candidates fi (content ex) lps)"
proof -
  from assms obtain st where
    run: "AnnotatePatterns fi mt (content ex) (map AnnotationOfJson (annotations ex), [], False) lps
            = Inr st"
    and ex': "ex' = ex\<lparr>annotations := map AnnotationToJson (fst st)\<rparr>"
    by (auto simp: AnnotateExample_def split: sum.splits)
  from AnnotatePatterns_result[OF run] obtain added where
    a: "fst st = map AnnotationOfJson (annotations ex) @ added"
       "added_clear (map AnnotationOfJson (annotations ex)) added"
       "subseq added (all_candidates fi (content ex) lps)"
    by auto
  have "map AnnotationToJson (fst st) = annotations ex @ map AnnotationToJson added"
    by (simp add: a(1) AnnotationToJson_OfJson comp_def)
  with a ex' show ?thesis by auto
qed

text \<open>
  Claim C1, as amended. Whenever \<open>_AnnotateExample\<close> returns, every annotation it added
  (position \<open>j\<close> at or after the number of pre-existing annotations), taken as span \<open>a\<close>
  of the overlap test, fails the test against every annotation before it in the
  output (pre-existing or added earlier), taken as span \<open>b\<close>.
\<close>

theorem AnnotateExample_added_clear_of_earlier:
  assumes "AnnotateExample fi max_tokens ex label_patterns = Inr (ex', log)"
    and "length (annotations ex) \<le> j" and "j < length (annotations ex')" and "i < j"
  shows "\<not> HasOverlap (AnnotationOfJson (annotations ex' ! j))
                      (AnnotationOfJson (annotations ex' ! i))"
proof -
  from AnnotateExample_result[OF assms(1)] obtain added where
    ex': "ex' = ex\<lparr>annotations := annotations ex @ map AnnotationToJson added\<rparr>"
    and clear: "added_clear (map AnnotationOfJson (annotations ex)) added"
    by blast
  let ?pre = "map AnnotationOfJson (annotations ex)"
  have all: "map AnnotationOfJson (annotations ex') = ?pre @ added"
    by (simp add: ex' AnnotationOfJson_ToJson comp_def)
  have j: "j < length (?pre @ added)" using assms(3) by (simp add: ex')
  have "\<not> HasOverlap ((?pre @ added) ! j) ((?pre @ added) ! i)"
    using clear assms(2) j assms(4) by (intro added_clear_nth) auto
  moreover have "(?pre @ added) ! j = AnnotationOfJson (annotations ex' ! j)"
    using assms(3) by (simp flip: all)
  moreover have "(?pre @ added) ! i = AnnotationOfJson (annotations ex' ! i)"
    using assms(3,4) by (simp flip: all)
  ultimately show ?thesis by simp
qed

text \<open>An instance with one pre-existing annotation and two added ones.\<close>

theorem AnnotateExample_added_clear_of_earlier_witness:
  "AnnotateExample re_finditer MAX_ANNOTATION_TOKENS
     \<lparr>content = ''abcd'',
      annotations = [\<lparr>start_offset = 0, end_offset = 1, display_name = ''P''\<rparr>]\<rparr>
     [\<lparr>pattern = ''(cd)'', lp_label = ''X'', matching_mode = ''r'', matching_group = []\<rparr>,
      \<lparr>pattern = ''(b)'', lp_label = ''Y'', matching_mode = ''r'', matching_group = []\<rparr>] =
     Inr (\<lparr>content = ''abcd'',
           annotations = [\<lparr>start_offset = 0, end_offset = 1, display_name = ''P''\<rparr>,
                          \<lparr>start_offset = 2, end_offset = 4, display_name = ''X''\<rparr>,
                          \<lparr>start_offset = 1, end_offset = 2, display_name = ''Y''\<rparr>]\<rparr>,
          [Matched (Some ''cd'') 2 False, Matched (Some ''b'') 1 False])
   \<and> \<not> HasOverlap (Annotation 1 2 ''Y'') (Annotation 2 4 ''X'')"
proof -
  let ?ex = "\<lparr>content = ''abcd'',
      annotations = [\<lparr>start_offset = 0, end_offset = 1, display_name = ''P''\<rparr>]\<rparr>"
  let ?ex' = "\<lparr>content = ''abcd'',
           annotations = [\<lparr>start_offset = 0, end_offset = 1, display_name = ''P''\<rparr>,
                          \<lparr>start_offset = 2, end_offset = 4, display_name = ''X''\<rparr>,
                          \<lparr>start_offset = 1, end_offset = 2, display_name = ''Y''\<rparr>]\<rparr>"
  have run: "AnnotateExample re_finditer MAX_ANNOTATION_TOKENS ?ex
     [\<lparr>pattern = ''(cd)'', lp_label = ''X'', matching_mode = ''r'', matching_group = []\<rparr>,
      \<lparr>pattern = ''(b)'', lp_label = ''Y'', matching_mode = ''r'', matching_group = []\<rparr>] =
     Inr (?ex', [Matched (Some ''cd'') 2 False, Matched (Some ''b'') 1 False])"
    by code_simp
  have "\<not> HasOverlap (AnnotationOfJson (annotations ?ex' ! 2))
                     (AnnotationOfJson (annotations ?ex' ! 1))"
    by (rule AnnotateExample_added_clear_of_earlier[OF run]) simp_all
  then show ?thesis using run by (simp add: AnnotationOfJson_def)
qed

text \<open>
  Claim C1 as stated fails. Two pre-existing annotations that overlap stay in the
  output of a run with no rules; and with no pre-existing annotation at all, the
  rule \<open>(abc)\<close> adds \<open>[0,3)\<close> after the rule \<open>(b)\<close> has added \<open>[1,2)\<close>, because the test
  is made with the candidate as span \<open>a\<close> only, and the earlier annotation as span \<open>a\<close>
  overlaps the later one.
\<close>

theorem AnnotateExample_overlap_counterexample:
  "AnnotateExample re_finditer MAX_ANNOTATION_TOKENS
     \<lparr>content = ''abcdefg'',
      annotations = [\<lparr>start_offset = 0, end_offset = 5, display_name = ''A''\<rparr>,
                     \<lparr>start_offset = 2, end_offset = 7, display_name = ''B''\<rparr>]\<rparr> [] =
     Inr (\<lparr>content = ''abcdefg'',
           annotations = [\<lparr>start_offset = 0, end_offset = 5, display_name = ''A''\<rparr>,
                          \<lparr>start_offset = 2, end_offset = 7, display_name = ''B''\<rparr>]\<rparr>, [])
   \<and> HasOverlap (Annotation 2 7 ''B'') (Annotation 0 5 ''A'')
   \<and> HasOverlap (Annotation 0 5 ''A'') (Annotation 2 7 ''B'')
   \<and> AnnotateExample re_finditer MAX_ANNOTATION_TOKENS
       \<lparr>content = ''abc'', annotations = []\<rparr>
       [\<lparr>pattern = ''(b)'', lp_label = ''X'', matching_mode = ''r'', matching_group = []\<rparr>,
        \<lparr>pattern = ''(abc)'', lp_label = ''Y'', matching_mode = ''r'', matching_group = []\<rparr>] =
     Inr (\<lparr>content = ''abc'',
           annotations = [\<lparr>start_offset = 1, end_offset = 2, display_name = ''X''\<rparr>,
                          \<lparr>start_offset = 0, end_offset = 3, display_name = ''Y''\<rparr>]\<rparr>,
          [Matched (Some ''b'') 1 False, Matched (Some ''abc'') 0 False])
   \<and> HasOverlap (Annotation 1 2 ''X'') (Annotation 0 3 ''Y'')"
  by code_simp

text \<open>
  Claim C9. Whenever \<open>_AnnotateExample\<close> returns, the text of the example is unchanged
  and its annotations are the pre-existing ones, unchanged and in their order,
  followed by added ones that form a subsequence of the candidates in rule order and,
  within a rule, match order. (A call that raises does not write the example.)
\<close>

theorem AnnotateExample_frame:
  assumes "AnnotateExample fi max_tokens ex label_patterns = Inr (ex', log)"
  shows "content ex' = content ex
       \<and> (\<exists>added. annotations ex' = annotations ex @ map AnnotationToJson added
                 \<and> subseq added (all_candidates fi (content ex) label_patterns))"
  using AnnotateExample_result[OF assms] by auto


text \<open>
  An instance: one pre-existing annotation, three rules, the candidate of the second
  rule dropped.
\<close>

theorem AnnotateExample_frame_witness:
  "AnnotateExample re_finditer MAX_ANNOTATION_TOKENS
     \<lparr>content = ''abcd'',
      annotations = [\<lparr>start_offset = 0, end_offset = 1, display_name = ''P''\<rparr>]\<rparr>
     [\<lparr>pattern = ''(cd)'', lp_label = ''X'', matching_mode = ''r'', matching_group = []\<rparr>,
      \<lparr>pattern = ''(bc)'', lp_label = ''Z'', matching_mode = ''r'', matching_group = []\<rparr>,
      \<lparr>pattern = ''(b)'', lp_label = ''Y'', matching_mode = ''r'', matching_group = []\<rparr>] =
     Inr (\<lparr>content = ''abcd'',
           annotations = [\<lparr>start_offset = 0, end_offset = 1, display_name = ''P''\<rparr>,
                          \<lparr>start_offset = 2, end_offset = 4, display_name = ''X''\<rparr>,
                          \<lparr>start_offset = 1, end_offset = 2, display_name = ''Y''\<rparr>]\<rparr>,
          [Matched (Some ''cd'') 2 False, Matched (Some ''bc'') 1 True,
           Matched (Some ''b'') 1 False])
   \<and> (\<exists>added.
         [\<lparr>start_offset = 0, end_offset = 1, display_name = ''P''\<rparr>,
          \<lparr>start_offset = 2, end_offset = 4, display_name = ''X''\<rparr>,
          \<lparr>start_offset = 1, end_offset = 2, display_name = ''Y''\<rparr>]
         = [\<lparr>start_offset = 0, end_offset = 1, display_name = ''P''\<rparr>]
             @ map AnnotationToJson added
       \<and> subseq added [Annotation 2 4 ''X'', Annotation 1 3 ''Z'', Annotation 1 2 ''Y''])"
proof -
  let ?ex = "\<lparr>content = ''abcd'',
      annotations = [\<lparr>start_offset = 0, end_offset = 1, display_name = ''P''\<rparr>]\<rparr>"
  let ?lps = "[\<lparr>pattern = ''(cd)'', lp_label = ''X'', matching_mode = ''r'', matching_group = []\<rparr>,
      \<lparr>pattern = ''(bc)'', lp_label = ''Z'', matching_mode = ''r'', matching_group = []\<rparr>,
      \<lparr>pattern = ''(b)'', lp_label = ''Y'', matching_mode = ''r'', matching_group = []\<rparr>]"
  let ?ex' = "\<lparr>content = ''abcd'',
           annotations = [\<lparr>start_offset = 0, end_offset = 1, display_name = ''P''\<rparr>,
                          \<lparr>start_offset = 2, end_offset = 4, display_name = ''X''\<rparr>,
                          \<lparr>start_offset = 1, end_offset = 2, display_name = ''Y''\<rparr>]\<rparr>"
  have run: "AnnotateExample re_finditer MAX_ANNOTATION_TOKENS ?ex ?lps =
     Inr (?ex', [Matched (Some ''cd'') 2 False, Matched (Some ''bc'') 1 True,
           Matched (Some ''b'') 1 False])"
    by code_simp
  have cands: "all_candidates re_finditer (content ?ex) ?lps =
      [Annotation 2 4 ''X'', Annotation 1 3 ''Z'', Annotation 1 2 ''Y'']"
    by code_simp
  from AnnotateExample_frame[OF run] show ?thesis
    using run unfolding cands by simp
qed

text \<open>
  Claim C2 as stated fails twice on its own input. The call raises \<open>IndexError\<close>: the
  first match is added and then \<open>logger.info\<close> formats \<open>match.group(1)\<close> for a pattern
  without a capture group. And the candidates of the two rules are not at the offsets
  the claim gives.
\<close>

theorem end_to_end_example_counterexample:
  "AnnotateExample re_finditer MAX_ANNOTATION_TOKENS
     \<lparr>content = ''Book a flight to Paris tomorrow'', annotations = []\<rparr>
     [\<lparr>pattern = ''Paris'', lp_label = ''CITY'', matching_mode = ''e'', matching_group = []\<rparr>,
      \<lparr>pattern = ''flight'', lp_label = ''TRANSPORT'', matching_mode = ''e'',
        matching_group = []\<rparr>]
     = Inl IndexError
   \<and> all_candidates re_finditer ''Book a flight to Paris tomorrow''
     [\<lparr>pattern = ''Paris'', lp_label = ''CITY'', matching_mode = ''e'', matching_group = []\<rparr>,
      \<lparr>pattern = ''flight'', lp_label = ''TRANSPORT'', matching_mode = ''e'',
        matching_group = []\<rparr>]
     \<noteq> [Annotation 18 23 ''CITY'', Annotation 8 14 ''TRANSPORT'']"
  by code_simp

text \<open>
  Claim C2, as amended. On the text \<open>Book a flight to Paris tomorrow\<close> the candidates of
  the rules \<open>("Paris","CITY","e","")\<close> and \<open>("flight","TRANSPORT","e","")\<close> are, in rule
  order, \<open>[17,22)\<close> with label \<open>CITY\<close> and \<open>[7,13)\<close> with label \<open>TRANSPORT\<close>; with each
  pattern enclosed in a capture group, \<open>_AnnotateExample\<close> returns exactly these two
  annotations in that order.
\<close>

theorem end_to_end_example:
  "all_candidates re_finditer ''Book a flight to Paris tomorrow''
     [\<lparr>pattern = ''Paris'', lp_label = ''CITY'', matching_mode = ''e'', matching_group = []\<rparr>,
      \<lparr>pattern = ''flight'', lp_label = ''TRANSPORT'', matching_mode = ''e'',
        matching_group = []\<rparr>]
     = [Annotation 17 22 ''CITY'', Annotation 7 13 ''TRANSPORT'']
   \<and> AnnotateExample re_finditer MAX_ANNOTATION_TOKENS
     \<lparr>content = ''Book a flight to Paris tomorrow'', annotations = []\<rparr>
     [\<lparr>pattern = ''(Paris)'', lp_label = ''CITY'', matching_mode = ''e'', matching_group = []\<rparr>,
      \<lparr>pattern = ''(flight)'', lp_label = ''TRANSPORT'', matching_mode = ''e'',
        matching_group = []\<rparr>]
     = Inr (\<lparr>content = ''Book a flight to Paris tomorrow'',
             annotations = [\<lparr>start_offset = 17, end_offset = 22, display_name = ''CITY''\<rparr>,
                            \<lparr>start_offset = 7, end_offset = 13,
                              display_name = ''TRANSPORT''\<rparr>]\<rparr>,
            [Matched (Some ''Paris'') 17 False, Matched (Some ''flight'') 7 False])"
  by code_simp

text \<open>
  Claim C3. A candidate whose requested group does not exist is not discarded with a
  warning: \<open>match.start(label_group)\<close> in the first test raises \<open>IndexError\<close> before
  the test on \<open>len(match.groups())\<close> is reached. This holds for every match when the
  group after its last one is requested, and for the rule \<open>("(a)","X","r","2")\<close> on the
  text \<open>a\<close> the exception ends \<open>_AnnotateExample\<close>.
\<close>

theorem missing_group_raises:
  "AnnotateMatch max_tokens example_text lbl (int (length (subgroups m)) + 1) st m
     = Inl IndexError
   \<and> AnnotateExample re_finditer MAX_ANNOTATION_TOKENS
       \<lparr>content = ''a'', annotations = []\<rparr>
       [\<lparr>pattern = ''(a)'', lp_label = ''X'', matching_mode = ''r'', matching_group = ''2''\<rparr>]
     = Inl IndexError"
proof -
  have "AnnotateMatch max_tokens example_text lbl (int (length (subgroups m)) + 1) st m
     = Inl IndexError"
    by (simp add: AnnotateMatch_def match_start_def match_span_def)
  moreover have "AnnotateExample re_finditer MAX_ANNOTATION_TOKENS
       \<lparr>content = ''a'', annotations = []\<rparr>
       [\<lparr>pattern = ''(a)'', lp_label = ''X'', matching_mode = ''r'', matching_group = ''2''\<rparr>]
     = Inl IndexError"
    by code_simp
  ultimately show ?thesis by simp
qed

text \<open>
  Claim C6. With the text \<open>Paris\<close>, the rule \<open>("(Paris)","CITY","r","")\<close> commits
  \<open>[0,5)\<close>; the candidate \<open>[0,5)\<close> of the later rule \<open>("Paris","TOWN","e","")\<close> overlaps
  it and is not added, but the call then raises \<open>IndexError\<close> instead of logging the
  drop, since the later pattern has no group 1. With \<open>(Paris)\<close> as the later pattern
  the drop is logged and the annotation of the first rule is the output.
\<close>

theorem dropped_candidate_raises:
  "AnnotateExample re_finditer MAX_ANNOTATION_TOKENS
     \<lparr>content = ''Paris'', annotations = []\<rparr>
     [\<lparr>pattern = ''(Paris)'', lp_label = ''CITY'', matching_mode = ''r'', matching_group = []\<rparr>,
      \<lparr>pattern = ''Paris'', lp_label = ''TOWN'', matching_mode = ''e'', matching_group = []\<rparr>]
     = Inl IndexError
   \<and> AnnotateExample re_finditer MAX_ANNOTATION_TOKENS
     \<lparr>content = ''Paris'', annotations = []\<rparr>
     [\<lparr>pattern = ''(Paris)'', lp_label = ''CITY'', matching_mode = ''r'', matching_group = []\<rparr>,
      \<lparr>pattern = ''(Paris)'', lp_label = ''TOWN'', matching_mode = ''e'', matching_group = []\<rparr>]
     = Inr (\<lparr>content = ''Paris'',
             annotations = [\<lparr>start_offset = 0, end_offset = 5, display_name = ''CITY''\<rparr>]\<rparr>,
            [Matched (Some ''Paris'') 0 False, Matched (Some ''Paris'') 0 True])"
  by code_simp


text \<open>
  A candidate with a non-empty span that overlaps an annotation present is never
  added: the loop body leaves the annotations as they are and logs the match as
  skipped, or raises \<open>IndexError\<close> when the pattern has no group 1.
\<close>

theorem AnnotateMatch_overlapping_candidate_dropped:
  assumes "match_start m g = Inr s" and "match_end m g = Inr e" and "s < e"
    and "match_group example_text m g = Inr (Some t)" and "t \<noteq> []"
    and "overlaps_any (Annotation s e lbl) (fst st)"
  shows "AnnotateMatch max_tokens example_text lbl g st m =
           (case match_group example_text m 1 of
              Inl err \<Rightarrow> Inl err
            | Inr g1 \<Rightarrow> Inr (fst st, snd st @ [Matched g1 s True]))"
proof -
  have "\<not> int (length (subgroups m)) < g"
    using assms(1) by (auto simp: match_start_def match_span_def split: if_splits)
  then show ?thesis
    using assms by (simp add: AnnotateMatch_def AddAnnotation_def split: sum.splits)
qed

text \<open>An instance of either outcome.\<close>

theorem AnnotateMatch_overlapping_candidate_dropped_witness:
  "AnnotateMatch MAX_ANNOTATION_TOKENS ''Paris'' ''TOWN'' 0 ([Annotation 0 5 ''CITY''], [])
     \<lparr>span0 = (0, 5), subgroups = [Some (0, 5)]\<rparr> =
     Inr ([Annotation 0 5 ''CITY''], [Matched (Some ''Paris'') 0 True])
   \<and> AnnotateMatch MAX_ANNOTATION_TOKENS ''Paris'' ''TOWN'' 0 ([Annotation 0 5 ''CITY''], [])
     \<lparr>span0 = (0, 5), subgroups = []\<rparr> = Inl IndexError"
proof -
  let ?m = "\<lparr>span0 = (0, 5), subgroups = [Some (0, 5)]\<rparr>"
  let ?n = "\<lparr>span0 = (0, 5), subgroups = []\<rparr>"
  let ?st = "([Annotation 0 5 ''CITY''], [] :: log_event list)"
  have o: "overlaps_any (Annotation 0 5 ''TOWN'') (fst ?st)" by code_simp
  have g: "''Paris'' \<noteq> []" by simp
  have "AnnotateMatch MAX_ANNOTATION_TOKENS ''Paris'' ''TOWN'' 0 ?st ?m =
          (case match_group ''Paris'' ?m 1 of
              Inl err \<Rightarrow> Inl err
            | Inr g1 \<Rightarrow> Inr (fst ?st, snd ?st @ [Matched g1 0 True]))"
    by (rule AnnotateMatch_overlapping_candidate_dropped[where e = 5 and t = "''Paris''"])
       (simp_all add: match_start_def match_end_def match_group_def match_span_def
          HasOverlap_def)
  moreover have "AnnotateMatch MAX_ANNOTATION_TOKENS ''Paris'' ''TOWN'' 0 ?st ?n =
          (case match_group ''Paris'' ?n 1 of
              Inl err \<Rightarrow> Inl err
            | Inr g1 \<Rightarrow> Inr (fst ?st, snd ?st @ [Matched g1 0 True]))"
    by (rule AnnotateMatch_overlapping_candidate_dropped[where e = 5 and t = "''Paris''"])
       (simp_all add: match_start_def match_end_def match_group_def match_span_def
          HasOverlap_def)
  ultimately show ?thesis
    by (simp add: match_group_def match_span_def)
qed

text \<open>
  A match whose selected group exists and has an empty span, or took no part in the
  match, adds nothing and is logged as a skipped empty match.
\<close>

theorem AnnotateMatch_empty_span_skipped:
  assumes "match_start m g = Inr s" and "match_end m g = Inr e" and "e \<le> s"
  shows "AnnotateMatch max_tokens example_text lbl g st m =
           Inr (fst st, snd st @ [Skipped_empty_match (int (fst (span0 m)))])"
  using assms by (simp add: AnnotateMatch_def)

text \<open>An instance with an empty group and one with a group that took no part.\<close>

theorem AnnotateMatch_empty_span_skipped_witness:
  "AnnotateMatch MAX_ANNOTATION_TOKENS ''ab'' ''L'' 1 ([], [])
     \<lparr>span0 = (1, 1), subgroups = [Some (1, 1)]\<rparr> = Inr ([], [Skipped_empty_match 1])
   \<and> AnnotateMatch MAX_ANNOTATION_TOKENS ''ab'' ''L'' 1 ([], [])
     \<lparr>span0 = (0, 1), subgroups = [None]\<rparr> = Inr ([], [Skipped_empty_match 0])"
proof -
  have "AnnotateMatch MAX_ANNOTATION_TOKENS ''ab'' ''L'' 1 ([], [])
     \<lparr>span0 = (1, 1), subgroups = [Some (1, 1)]\<rparr> =
     Inr (fst ([] :: Annotation list, [] :: log_event list),
          snd ([] :: Annotation list, [] :: log_event list) @
            [Skipped_empty_match (int (fst (span0 \<lparr>span0 = (1, 1), subgroups = [Some (1, 1)]\<rparr>)))])"
    by (rule AnnotateMatch_empty_span_skipped[where s = 1 and e = 1])
       (simp_all add: match_start_def match_end_def match_span_def)
  moreover have "AnnotateMatch MAX_ANNOTATION_TOKENS ''ab'' ''L'' 1 ([], [])
     \<lparr>span0 = (0, 1), subgroups = [None]\<rparr> =
     Inr (fst ([] :: Annotation list, [] :: log_event list),
          snd ([] :: Annotation list, [] :: log_event list) @
            [Skipped_empty_match (int (fst (span0 \<lparr>span0 = (0, 1), subgroups = [None]\<rparr>)))])"
    by (rule AnnotateMatch_empty_span_skipped[where s = "-1" and e = "-1"])
       (simp_all add: match_start_def match_end_def match_span_def)
  ultimately show ?thesis by simp
qed

subsection \<open>The matcher on literal patterns\<close>

lemma scan_sound:
  "m \<in> set (scan rx ic tx i) \<Longrightarrow> \<exists>k\<ge>i. m = match_at rx k \<and> matches_at rx ic tx k"
proof (induction rx ic tx i rule: scan.induct)
  case (1 rx ic tx i)
  show ?case
  proof (cases "length tx < i")
    case True
    with "1.prems" show ?thesis by (simp add: scan.simps[of rx ic tx i])
  next
    case False
    show ?thesis
    proof (cases "matches_at rx ic tx i")
      case True
      with False "1.prems" have
        "m = match_at rx i \<or> m \<in> set (scan rx ic tx (i + max 1 (length (literal rx))))"
        by (simp add: scan.simps[of rx ic tx i])
      then show ?thesis
      proof
        assume "m = match_at rx i"
        with True show ?thesis by blast
      next
        assume "m \<in> set (scan rx ic tx (i + max 1 (length (literal rx))))"
        from "1.IH"(1)[OF False True this] obtain k where
          "i + max 1 (length (literal rx)) \<le> k" "m = match_at rx k" "matches_at rx ic tx k"
          by blast
        moreover from this(1) have "i \<le> k" by simp
        ultimately show ?thesis by blast
      qed
    next
      case nomatch: False
      with False "1.prems" have "m \<in> set (scan rx ic tx (Suc i))"
        by (simp add: scan.simps[of rx ic tx i])
      from "1.IH"(2)[OF False nomatch this] obtain k where
        "Suc i \<le> k" "m = match_at rx k" "matches_at rx ic tx k"
        by blast
      moreover from this(1) have "i \<le> k" by simp
      ultimately show ?thesis by blast
    qed
  qed
qed

lemma scan_leftmost:
  assumes "matches_at rx ic tx i" and "\<forall>k<i. \<not> matches_at rx ic tx k"
    and "j \<le> i"
  shows "scan rx ic tx j = match_at rx i # scan rx ic tx (i + max 1 (length (literal rx)))"
  using assms(3)
proof (induction "i - j" arbitrary: j)
  case 0
  then have "j = i" by simp
  moreover have "\<not> length tx < i" using assms(1) by (simp add: matches_at_def)
  ultimately show ?case using assms(1) by (simp add: scan.simps[of rx ic tx i])
next
  case (Suc d)
  then have lt: "j < i" by simp
  then have "\<not> matches_at rx ic tx j" using assms(2) by simp
  moreover have "\<not> length tx < j" using assms(1) lt by (simp add: matches_at_def)
  ultimately have "scan rx ic tx j = scan rx ic tx (Suc j)"
    by (simp add: scan.simps[of rx ic tx j])
  moreover have "scan rx ic tx (Suc j) =
      match_at rx i # scan rx ic tx (i + max 1 (length (literal rx)))"
    using Suc lt by (intro Suc.hyps(1)) auto
  ultimately show ?case by simp
qed


lemma not_word_backslash: "\<not> is_word (CHR 0x5C)"
  by (simp add: is_word_def)

lemma parse_regex_exact:
  assumes "list_all is_word p"
  shows "parse_regex (word_boundary @ p @ word_boundary) =
           Some \<lparr>anchored_left = True, grouped = False, literal = p, anchored_right = True\<rparr>"
proof -
  have "drop (length p) (p @ word_boundary) = word_boundary" by simp
  then show ?thesis
    using assms by (simp add: parse_regex_def parse_core_def word_boundary_def Let_def)
qed

lemma parse_regex_plain:
  assumes "list_all is_word p"
  shows "parse_regex p =
           Some \<lparr>anchored_left = False, grouped = False, literal = p, anchored_right = False\<rparr>"
proof -
  have l: "take 2 p \<noteq> word_boundary"
  proof
    assume "take 2 p = word_boundary"
    then have "hd p = CHR 0x5C \<and> p \<noteq> []"
      by (cases p) (auto simp: word_boundary_def)
    with assms not_word_backslash show False by (cases p) auto
  qed
  have r: "\<not> (2 \<le> length p \<and> drop (length p - 2) p = word_boundary)"
  proof
    assume a: "2 \<le> length p \<and> drop (length p - 2) p = word_boundary"
    then have "CHR 0x5C \<in> set (drop (length p - 2) p)" by (simp add: word_boundary_def)
    then have "CHR 0x5C \<in> set p" by (rule in_set_dropD)
    with assms not_word_backslash show False by (auto simp: list_all_iff)
  qed
  have "parse_regex p = parse_core False False p"
    using l r unfolding parse_regex_def Let_def by (simp only: if_False)
  then show ?thesis using assms by (simp add: parse_core_def)
qed

lemma literal_at_nth:
  assumes "take (length p) (drop k tx) = p" and "n < length p" and "k + length p \<le> length tx"
  shows "tx ! (k + n) = p ! n"
proof -
  have "p ! n = take (length p) (drop k tx) ! n" using assms(1) by simp
  also have "\<dots> = tx ! (k + n)" using assms(2,3) by simp
  finally show ?thesis by simp
qed

lemma matches_at_plain:
  "matches_at \<lparr>anchored_left = False, grouped = False, literal = p, anchored_right = False\<rparr>
      False tx k \<longleftrightarrow>
   k + length p \<le> length tx \<and> take (length p) (drop k tx) = p"
proof -
  have "chars_eq False = (=)" by (intro ext) (simp add: chars_eq_def)
  then show ?thesis by (auto simp: matches_at_def list_all2_eq[symmetric])
qed

lemma matches_at_exact:
  assumes "matches_at \<lparr>anchored_left = True, grouped = False, literal = p, anchored_right = True\<rparr>
             False tx k"
    and "p \<noteq> []" and "list_all is_word p"
  shows "k + length p \<le> length tx \<and> take (length p) (drop k tx) = p \<and>
         (k = 0 \<or> \<not> is_word (tx ! (k - 1))) \<and>
         (k + length p = length tx \<or> \<not> is_word (tx ! (k + length p)))"
proof -
  have "chars_eq False = (=)" by (intro ext) (simp add: chars_eq_def)
  with assms(1) have len: "k + length p \<le> length tx"
    and lit: "take (length p) (drop k tx) = p"
    and left: "at_boundary tx k" and right: "at_boundary tx (k + length p)"
    by (auto simp: matches_at_def list_all2_eq[symmetric])
  have pos: "0 < length p" using assms(2) by simp
  have "tx ! (k + 0) = p ! 0" using lit pos len by (rule literal_at_nth)
  moreover have "is_word (p ! 0)" using assms(3) pos by (simp add: list_all_length)
  ultimately have first: "is_word (tx ! k)" by simp
  have "tx ! (k + (length p - 1)) = p ! (length p - 1)"
    using lit _ len by (rule literal_at_nth) (use pos in simp)
  moreover have "is_word (p ! (length p - 1))" using assms(3) pos by (simp add: list_all_length)
  ultimately have last: "is_word (tx ! (k + length p - 1))" using pos by simp
  have "k = 0 \<or> \<not> is_word (tx ! (k - 1))"
    using left first len pos by (auto simp: at_boundary_def)
  moreover have "k + length p = length tx \<or> \<not> is_word (tx ! (k + length p))"
    using right last len pos by (auto simp: at_boundary_def)
  ultimately show ?thesis using len lit by simp
qed

lemma scan_complete:
  "matches_at rx ic tx k \<Longrightarrow> i \<le> k \<Longrightarrow>
     \<exists>s. match_at rx s \<in> set (scan rx ic tx i) \<and> matches_at rx ic tx s \<and> i \<le> s \<and> s \<le> k \<and>
         k < s + max 1 (length (literal rx))"
proof (induction rx ic tx i rule: scan.induct)
  case (1 rx ic tx i)
  have in_range: "\<not> length tx < i"
    using "1.prems" by (auto simp: matches_at_def)
  show ?case
  proof (cases "matches_at rx ic tx i")
    case True
    show ?thesis
    proof (cases "k < i + max 1 (length (literal rx))")
      case near: True
      have "match_at rx i \<in> set (scan rx ic tx i)"
        using in_range True by (simp add: scan.simps[of rx ic tx i])
      with True near "1.prems"(2) show ?thesis by blast
    next
      case far: False
      then have le: "i + max 1 (length (literal rx)) \<le> k" by simp
      from "1.IH"(1)[OF in_range True "1.prems"(1) le] obtain s where
        s: "match_at rx s \<in> set (scan rx ic tx (i + max 1 (length (literal rx))))"
           "matches_at rx ic tx s" "i + max 1 (length (literal rx)) \<le> s" "s \<le> k"
           "k < s + max 1 (length (literal rx))"
        by blast
      have "match_at rx s \<in> set (scan rx ic tx i)"
        using in_range True s(1) by (simp add: scan.simps[of rx ic tx i])
      moreover have "i \<le> s" using s(3) by simp
      ultimately show ?thesis using s by blast
    qed
  next
    case False
    then have "k \<noteq> i" using "1.prems"(1) by auto
    then have le: "Suc i \<le> k" using "1.prems"(2) by simp
    from "1.IH"(2)[OF in_range False "1.prems"(1) le] obtain s where
      s: "match_at rx s \<in> set (scan rx ic tx (Suc i))"
         "matches_at rx ic tx s" "Suc i \<le> s" "s \<le> k" "k < s + max 1 (length (literal rx))"
      by blast
    have "match_at rx s \<in> set (scan rx ic tx i)"
      using in_range False s(1) by (simp add: scan.simps[of rx ic tx i])
    moreover have "i \<le> s" using s(3) by simp
    ultimately show ?thesis using s by blast
  qed
qed

lemma scan_from:
  "m \<in> set (scan rx ic tx i) \<Longrightarrow> i \<le> fst (span0 m)"
  using scan_sound[of m rx ic tx i] by (auto simp: match_at_def)

lemma scan_ordered:
  "sorted_wrt (\<lambda>m m'. snd (span0 m) \<le> fst (span0 m')) (scan rx ic tx i)"
proof (induction rx ic tx i rule: scan.induct)
  case (1 rx ic tx i)
  show ?case
  proof (cases "length tx < i")
    case True
    then show ?thesis by (simp add: scan.simps[of rx ic tx i])
  next
    case False
    show ?thesis
    proof (cases "matches_at rx ic tx i")
      case True
      have "\<forall>m'\<in>set (scan rx ic tx (i + max 1 (length (literal rx)))).
              snd (span0 (match_at rx i)) \<le> fst (span0 m')"
      proof
        fix m' assume "m' \<in> set (scan rx ic tx (i + max 1 (length (literal rx))))"
        from scan_from[OF this] show "snd (span0 (match_at rx i)) \<le> fst (span0 m')"
          by (simp add: match_at_def)
      qed
      with "1.IH"(1)[OF False True] False True show ?thesis
        by (simp add: scan.simps[of rx ic tx i])
    next
      case nomatch: False
      with "1.IH"(2)[OF False nomatch] False show ?thesis
        by (simp add: scan.simps[of rx ic tx i])
    qed
  qed
qed


lemma matches_at_plain_occurs:
  "matches_at \<lparr>anchored_left = False, grouped = False, literal = p, anchored_right = False\<rparr>
      False tx k \<longleftrightarrow> occurs_at p tx k"
  by (simp add: matches_at_plain occurs_at_def)

lemma matches_at_exact_whole_word:
  assumes "p \<noteq> []" and "list_all is_word p"
  shows "matches_at \<lparr>anchored_left = True, grouped = False, literal = p, anchored_right = True\<rparr>
           False tx k \<longleftrightarrow> whole_word_at p tx k"
proof
  assume "matches_at \<lparr>anchored_left = True, grouped = False, literal = p, anchored_right = True\<rparr>
           False tx k"
  from matches_at_exact[OF this assms] show "whole_word_at p tx k"
    by (simp add: whole_word_at_def occurs_at_def)
next
  assume w: "whole_word_at p tx k"
  then have len: "k + length p \<le> length tx" and lit: "take (length p) (drop k tx) = p"
    and left: "k = 0 \<or> \<not> is_word (tx ! (k - 1))"
    and right: "k + length p = length tx \<or> \<not> is_word (tx ! (k + length p))"
    by (auto simp: whole_word_at_def occurs_at_def)
  have pos: "0 < length p" using assms(1) by simp
  have "tx ! (k + 0) = p ! 0" using lit pos len by (rule literal_at_nth)
  moreover have "is_word (p ! 0)" using assms(2) pos by (simp add: list_all_length)
  ultimately have first: "is_word (tx ! k)" by simp
  have "tx ! (k + (length p - 1)) = p ! (length p - 1)"
    using lit _ len by (rule literal_at_nth) (use pos in simp)
  moreover have "is_word (p ! (length p - 1))" using assms(2) pos by (simp add: list_all_length)
  ultimately have last: "is_word (tx ! (k + length p - 1))" using pos by simp
  have klt: "k < length tx" using len pos by linarith
  have l: "at_boundary tx k" using left first klt by (auto simp: at_boundary_def)
  have r: "at_boundary tx (k + length p)" using right last len pos by (auto simp: at_boundary_def)
  have "chars_eq False = (=)" by (intro ext) (simp add: chars_eq_def)
  then show "matches_at \<lparr>anchored_left = True, grouped = False, literal = p, anchored_right = True\<rparr>
           False tx k"
    using len lit l r by (simp add: matches_at_def list_all2_eq[symmetric])
qed

lemma whole_words_disjoint:
  assumes "p \<noteq> []" and "list_all is_word p"
    and "whole_word_at p tx s" and "whole_word_at p tx k" and "s \<le> k" and "k < s + length p"
  shows "s = k"
proof (rule ccontr)
  assume "s \<noteq> k"
  then have lt: "s < k" using assms(5) by simp
  have occ: "take (length p) (drop s tx) = p" "s + length p \<le> length tx"
    using assms(3) by (auto simp: whole_word_at_def occurs_at_def)
  have n: "k - 1 - s < length p" using lt assms(6) by simp
  have "tx ! (s + (k - 1 - s)) = p ! (k - 1 - s)"
    using occ(1) n occ(2) by (rule literal_at_nth)
  moreover have "is_word (p ! (k - 1 - s))" using assms(2) n by (simp add: list_all_length)
  moreover have "s + (k - 1 - s) = k - 1" using lt by simp
  ultimately have "is_word (tx ! (k - 1))" by simp
  moreover have "k \<noteq> 0" using lt by simp
  ultimately show False using assms(4) by (simp add: whole_word_at_def)
qed

lemma exact_matches:
  assumes "p \<noteq> []" and "list_all is_word p"
  shows "m \<in> set (scan \<lparr>anchored_left = True, grouped = False, literal = p, anchored_right = True\<rparr>
                    False tx 0) \<longleftrightarrow>
         (\<exists>k. whole_word_at p tx k \<and> m = \<lparr>span0 = (k, k + length p), subgroups = []\<rparr>)"
proof
  let ?ex = "\<lparr>anchored_left = True, grouped = False, literal = p, anchored_right = True\<rparr>"
  assume "m \<in> set (scan ?ex False tx 0)"
  from scan_sound[OF this] obtain k where "m = match_at ?ex k" "matches_at ?ex False tx k"
    by blast
  then show "\<exists>k. whole_word_at p tx k \<and> m = \<lparr>span0 = (k, k + length p), subgroups = []\<rparr>"
    using matches_at_exact_whole_word[OF assms, of tx k] by (auto simp: match_at_def)
next
  let ?ex = "\<lparr>anchored_left = True, grouped = False, literal = p, anchored_right = True\<rparr>"
  assume "\<exists>k. whole_word_at p tx k \<and> m = \<lparr>span0 = (k, k + length p), subgroups = []\<rparr>"
  then obtain k where k: "whole_word_at p tx k"
    and m: "m = \<lparr>span0 = (k, k + length p), subgroups = []\<rparr>"
    by blast
  have "matches_at ?ex False tx k"
    using k matches_at_exact_whole_word[OF assms, of tx k] by simp
  from scan_complete[OF this, of 0] obtain s where
    s: "match_at ?ex s \<in> set (scan ?ex False tx 0)" "matches_at ?ex False tx s" "s \<le> k"
       "k < s + max 1 (length (literal ?ex))"
    by auto
  have "whole_word_at p tx s"
    using s(2) matches_at_exact_whole_word[OF assms, of tx s] by simp
  moreover have "max 1 (length p) = length p" using assms(1) by (cases p) auto
  then have "k < s + length p" using s(4) by simp
  ultimately have "s = k" using whole_words_disjoint[OF assms _ k s(3)] by simp
  with s(1) show "m \<in> set (scan ?ex False tx 0)" by (simp add: m match_at_def)
qed

lemma regex_matches_cover:
  assumes "p \<noteq> []" and "occurs_at p tx k"
  shows "\<exists>s. s \<le> k \<and> k < s + length p \<and> occurs_at p tx s \<and>
             \<lparr>span0 = (s, s + length p), subgroups = []\<rparr>
               \<in> set (scan \<lparr>anchored_left = False, grouped = False, literal = p,
                             anchored_right = False\<rparr> False tx 0)"
proof -
  let ?re = "\<lparr>anchored_left = False, grouped = False, literal = p, anchored_right = False\<rparr>"
  have "matches_at ?re False tx k" using assms(2) by (simp add: matches_at_plain_occurs)
  from scan_complete[OF this, of 0] obtain s where
    s: "match_at ?re s \<in> set (scan ?re False tx 0)" "matches_at ?re False tx s" "s \<le> k"
       "k < s + max 1 (length (literal ?re))"
    by auto
  have "max 1 (length p) = length p" using assms(1) by (cases p) auto
  then have "k < s + length p" using s(4) by simp
  with s show ?thesis by (auto simp: match_at_def matches_at_plain_occurs)
qed


text \<open>
  Claim C7. For a non-empty pattern of word characters, the matches of the rule in
  \<open>EXACT_MATCH\<close> mode are exactly the occurrences of the pattern as a whole word, so
  never a span strictly inside a larger word. In \<open>REGEX\<close> mode every match is an
  occurrence, every occurrence is matched or overlaps a match that starts before it,
  an occurrence that no earlier occurrence overlaps is matched whatever surrounds it,
  and the leftmost occurrence is the first match. In both modes the matches come
  left to right without overlap. For the pattern \<open>cat\<close>: no match in \<open>category\<close> in
  \<open>EXACT_MATCH\<close> mode and the match \<open>[0,3)\<close> in \<open>REGEX\<close> mode; in \<open>cat category\<close>
  the word alone in \<open>EXACT_MATCH\<close> mode, the word and the inner match \<open>[4,7)\<close> in
  \<open>REGEX\<close> mode.
\<close>

theorem exact_match_on_word_boundaries:
  assumes "p \<noteq> []" and "list_all is_word p"
  shows "(\<exists>ms. select_matcher re_finditer example_text
                 \<lparr>pattern = p, lp_label = l, matching_mode = EXACT_MATCH, matching_group = g\<rparr>
               = Some (Inr ms)
             \<and> (\<forall>m. m \<in> set ms \<longleftrightarrow>
                   (\<exists>k. whole_word_at p example_text k
                      \<and> m = \<lparr>span0 = (k, k + length p), subgroups = []\<rparr>))
             \<and> sorted_wrt (\<lambda>m m'. snd (span0 m) \<le> fst (span0 m')) ms)
       \<and> (\<exists>ms. select_matcher re_finditer example_text
                 \<lparr>pattern = p, lp_label = l, matching_mode = REGEX, matching_group = g\<rparr>
               = Some (Inr ms)
             \<and> (\<forall>m\<in>set ms. \<exists>k. occurs_at p example_text k
                      \<and> m = \<lparr>span0 = (k, k + length p), subgroups = []\<rparr>)
             \<and> (\<forall>k. occurs_at p example_text k \<longrightarrow>
                   (\<exists>s. s \<le> k \<and> k < s + length p
                      \<and> \<lparr>span0 = (s, s + length p), subgroups = []\<rparr> \<in> set ms))
             \<and> (\<forall>k. occurs_at p example_text k
                      \<and> (\<forall>j<k. k < j + length p \<longrightarrow> \<not> occurs_at p example_text j)
                   \<longrightarrow> \<lparr>span0 = (k, k + length p), subgroups = []\<rparr> \<in> set ms)
             \<and> (\<forall>i. occurs_at p example_text i \<and> (\<forall>k<i. \<not> occurs_at p example_text k)
                   \<longrightarrow> (\<exists>rest. ms = \<lparr>span0 = (i, i + length p), subgroups = []\<rparr> # rest))
             \<and> sorted_wrt (\<lambda>m m'. snd (span0 m) \<le> fst (span0 m')) ms)
       \<and> select_matcher re_finditer ''category''
            \<lparr>pattern = ''cat'', lp_label = l, matching_mode = EXACT_MATCH, matching_group = g\<rparr>
          = Some (Inr [])
       \<and> select_matcher re_finditer ''category''
            \<lparr>pattern = ''cat'', lp_label = l, matching_mode = REGEX, matching_group = g\<rparr>
          = Some (Inr [\<lparr>span0 = (0, 3), subgroups = []\<rparr>])
       \<and> select_matcher re_finditer ''cat category''
            \<lparr>pattern = ''cat'', lp_label = l, matching_mode = EXACT_MATCH, matching_group = g\<rparr>
          = Some (Inr [\<lparr>span0 = (0, 3), subgroups = []\<rparr>])
       \<and> select_matcher re_finditer ''cat category''
            \<lparr>pattern = ''cat'', lp_label = l, matching_mode = REGEX, matching_group = g\<rparr>
          = Some (Inr [\<lparr>span0 = (0, 3), subgroups = []\<rparr>, \<lparr>span0 = (4, 7), subgroups = []\<rparr>])"
proof -
  let ?ex = "\<lparr>anchored_left = True, grouped = False, literal = p, anchored_right = True\<rparr>"
  let ?re = "\<lparr>anchored_left = False, grouped = False, literal = p, anchored_right = False\<rparr>"
  let ?M = "\<lambda>k. \<lparr>span0 = (k, k + length p), subgroups = [] :: (nat \<times> nat) option list\<rparr>"
  have exact: "select_matcher re_finditer example_text
                 \<lparr>pattern = p, lp_label = l, matching_mode = EXACT_MATCH, matching_group = g\<rparr>
               = Some (Inr (scan ?ex False example_text 0))"
    by (simp add: select_matcher_def re_finditer_def parse_regex_exact[OF assms(2)])
  have regex: "select_matcher re_finditer example_text
                 \<lparr>pattern = p, lp_label = l, matching_mode = REGEX, matching_group = g\<rparr>
               = Some (Inr (scan ?re False example_text 0))"
    by (simp add: select_matcher_def re_finditer_def parse_regex_plain[OF assms(2)]
          EXACT_MATCH_def IGNORE_CASE_def REGEX_def)
  have e1: "\<forall>m. m \<in> set (scan ?ex False example_text 0) \<longleftrightarrow>
              (\<exists>k. whole_word_at p example_text k \<and> m = ?M k)"
    using exact_matches[OF assms] by blast
  have r1: "\<forall>m\<in>set (scan ?re False example_text 0).
              \<exists>k. occurs_at p example_text k \<and> m = ?M k"
  proof
    fix m assume "m \<in> set (scan ?re False example_text 0)"
    from scan_sound[OF this] show "\<exists>k. occurs_at p example_text k \<and> m = ?M k"
      by (auto simp: match_at_def matches_at_plain_occurs)
  qed
  have r2: "\<forall>k. occurs_at p example_text k \<longrightarrow>
              (\<exists>s. s \<le> k \<and> k < s + length p \<and> ?M s \<in> set (scan ?re False example_text 0))"
    using regex_matches_cover[OF assms(1)] by blast
  have r3: "\<forall>k. occurs_at p example_text k
                \<and> (\<forall>j<k. k < j + length p \<longrightarrow> \<not> occurs_at p example_text j)
              \<longrightarrow> ?M k \<in> set (scan ?re False example_text 0)"
  proof (intro allI impI)
    fix k
    assume a: "occurs_at p example_text k
                \<and> (\<forall>j<k. k < j + length p \<longrightarrow> \<not> occurs_at p example_text j)"
    from regex_matches_cover[OF assms(1), of example_text k] a obtain s where
      s: "s \<le> k" "k < s + length p" "occurs_at p example_text s"
         "?M s \<in> set (scan ?re False example_text 0)"
      by blast
    have "s = k"
    proof (rule ccontr)
      assume "s \<noteq> k"
      then have "s < k" using s(1) by simp
      with a s(2) have "\<not> occurs_at p example_text s" by blast
      with s(3) show False by simp
    qed
    with s(4) show "?M k \<in> set (scan ?re False example_text 0)" by simp
  qed
  have r4: "\<forall>i. occurs_at p example_text i \<and> (\<forall>k<i. \<not> occurs_at p example_text k)
              \<longrightarrow> (\<exists>rest. scan ?re False example_text 0 = ?M i # rest)"
  proof (intro allI impI)
    fix i
    assume a: "occurs_at p example_text i \<and> (\<forall>k<i. \<not> occurs_at p example_text k)"
    have "matches_at ?re False example_text i"
      using a by (simp add: matches_at_plain_occurs)
    moreover have "\<forall>k<i. \<not> matches_at ?re False example_text k"
      using a by (simp add: matches_at_plain_occurs)
    ultimately have "scan ?re False example_text 0 =
        match_at ?re i # scan ?re False example_text (i + max 1 (length (literal ?re)))"
      by (rule scan_leftmost) simp
    then show "\<exists>rest. scan ?re False example_text 0 = ?M i # rest"
      by (simp add: match_at_def)
  qed
  have c1: "select_matcher re_finditer ''category''
            \<lparr>pattern = ''cat'', lp_label = l, matching_mode = EXACT_MATCH, matching_group = g\<rparr>
          = Some (Inr [])"
    by code_simp
  have c2: "select_matcher re_finditer ''category''
            \<lparr>pattern = ''cat'', lp_label = l, matching_mode = REGEX, matching_group = g\<rparr>
          = Some (Inr [\<lparr>span0 = (0, 3), subgroups = []\<rparr>])"
    by code_simp
  have c3: "select_matcher re_finditer ''cat category''
            \<lparr>pattern = ''cat'', lp_label = l, matching_mode = EXACT_MATCH, matching_group = g\<rparr>
          = Some (Inr [\<lparr>span0 = (0, 3), subgroups = []\<rparr>])"
    by code_simp
  have c4: "select_matcher re_finditer ''cat category''
            \<lparr>pattern = ''cat'', lp_label = l, matching_mode = REGEX, matching_group = g\<rparr>
          = Some (Inr [\<lparr>span0 = (0, 3), subgroups = []\<rparr>, \<lparr>span0 = (4, 7), subgroups = []\<rparr>])"
    by code_simp
  have part1: "\<exists>ms. select_matcher re_finditer example_text
                 \<lparr>pattern = p, lp_label = l, matching_mode = EXACT_MATCH, matching_group = g\<rparr>
               = Some (Inr ms)
             \<and> (\<forall>m. m \<in> set ms \<longleftrightarrow> (\<exists>k. whole_word_at p example_text k \<and> m = ?M k))
             \<and> sorted_wrt (\<lambda>m m'. snd (span0 m) \<le> fst (span0 m')) ms"
    using exact e1 scan_ordered[of ?ex False example_text 0] by blast
  have part2: "\<exists>ms. select_matcher re_finditer example_text
                 \<lparr>pattern = p, lp_label = l, matching_mode = REGEX, matching_group = g\<rparr>
               = Some (Inr ms)
             \<and> (\<forall>m\<in>set ms. \<exists>k. occurs_at p example_text k \<and> m = ?M k)
             \<and> (\<forall>k. occurs_at p example_text k \<longrightarrow>
                   (\<exists>s. s \<le> k \<and> k < s + length p \<and> ?M s \<in> set ms))
             \<and> (\<forall>k. occurs_at p example_text k
                      \<and> (\<forall>j<k. k < j + length p \<longrightarrow> \<not> occurs_at p example_text j)
                   \<longrightarrow> ?M k \<in> set ms)
             \<and> (\<forall>i. occurs_at p example_text i \<and> (\<forall>k<i. \<not> occurs_at p example_text k)
                   \<longrightarrow> (\<exists>rest. ms = ?M i # rest))
             \<and> sorted_wrt (\<lambda>m m'. snd (span0 m) \<le> fst (span0 m')) ms"
    using regex r1 r2 r3 r4 scan_ordered[of ?re False example_text 0] by blast
  from part1 part2 c1 c2 c3 c4 show ?thesis by blast
qed

text \<open>An instance: \<open>cat\<close> in \<open>a cat category\<close>, in both modes.\<close>

theorem exact_match_on_word_boundaries_witness:
  "(\<exists>ms. select_matcher re_finditer ''a cat category''
                 \<lparr>pattern = ''cat'', lp_label = ''ANIMAL'', matching_mode = EXACT_MATCH,
                   matching_group = []\<rparr>
               = Some (Inr ms)
             \<and> (\<forall>m. m \<in> set ms \<longleftrightarrow>
                   (\<exists>k. whole_word_at ''cat'' ''a cat category'' k
                      \<and> m = \<lparr>span0 = (k, k + length ''cat''), subgroups = []\<rparr>)))
   \<and> (\<exists>ms. select_matcher re_finditer ''a cat category''
                 \<lparr>pattern = ''cat'', lp_label = ''ANIMAL'', matching_mode = REGEX,
                   matching_group = []\<rparr>
               = Some (Inr ms)
             \<and> (\<forall>k. occurs_at ''cat'' ''a cat category'' k \<longrightarrow>
                   (\<exists>s. s \<le> k \<and> k < s + length ''cat''
                      \<and> \<lparr>span0 = (s, s + length ''cat''), subgroups = []\<rparr> \<in> set ms)))
   \<and> select_matcher re_finditer ''a cat category''
        \<lparr>pattern = ''cat'', lp_label = ''ANIMAL'', matching_mode = EXACT_MATCH,
          matching_group = []\<rparr>
      = Some (Inr [\<lparr>span0 = (2, 5), subgroups = []\<rparr>])
   \<and> select_matcher re_finditer ''a cat category''
        \<lparr>pattern = ''cat'', lp_label = ''ANIMAL'', matching_mode = REGEX,
          matching_group = []\<rparr>
      = Some (Inr [\<lparr>span0 = (2, 5), subgroups = []\<rparr>, \<lparr>span0 = (6, 9), subgroups = []\<rparr>])"
proof -
  have h1: "''cat'' \<noteq> []" by simp
  have h2: "list_all is_word ''cat''" by (simp add: is_word_def)
  have run1: "select_matcher re_finditer ''a cat category''
        \<lparr>pattern = ''cat'', lp_label = ''ANIMAL'', matching_mode = EXACT_MATCH,
          matching_group = []\<rparr>
      = Some (Inr [\<lparr>span0 = (2, 5), subgroups = []\<rparr>])"
    by code_simp
  have run2: "select_matcher re_finditer ''a cat category''
        \<lparr>pattern = ''cat'', lp_label = ''ANIMAL'', matching_mode = REGEX,
          matching_group = []\<rparr>
      = Some (Inr [\<lparr>span0 = (2, 5), subgroups = []\<rparr>, \<lparr>span0 = (6, 9), subgroups = []\<rparr>])"
    by code_simp
  note t = exact_match_on_word_boundaries[OF h1 h2, of "''a cat category''" "''ANIMAL''" "[]"]
  from t have a: "\<exists>ms. select_matcher re_finditer ''a cat category''
                 \<lparr>pattern = ''cat'', lp_label = ''ANIMAL'', matching_mode = EXACT_MATCH,
                   matching_group = []\<rparr>
               = Some (Inr ms)
             \<and> (\<forall>m. m \<in> set ms \<longleftrightarrow>
                   (\<exists>k. whole_word_at ''cat'' ''a cat category'' k
                      \<and> m = \<lparr>span0 = (k, k + length ''cat''), subgroups = []\<rparr>))"
    by blast
  from t have b: "\<exists>ms. select_matcher re_finditer ''a cat category''
                 \<lparr>pattern = ''cat'', lp_label = ''ANIMAL'', matching_mode = REGEX,
                   matching_group = []\<rparr>
               = Some (Inr ms)
             \<and> (\<forall>k. occurs_at ''cat'' ''a cat category'' k \<longrightarrow>
                   (\<exists>s. s \<le> k \<and> k < s + length ''cat''
                      \<and> \<lparr>span0 = (s, s + length ''cat''), subgroups = []\<rparr> \<in> set ms))"
    by blast
  from a b run1 run2 show ?thesis by blast
qed

end
